theory Spec2Isabelle
  imports Main "HOL-Library.Char_ord" "HOL-Library.Sublist"
begin

section \<open>The tokenizer (stream\_json\_tokenizer.go)\<close>

subsection \<open>Tokens and tokenizer state\<close>

datatype TokenType =
  ObjectStart | ObjectEnd | ArrayStart | ArrayEnd | Number | Bool
  | ObjectKey | String | Colon | Comma | Null | EOF | Invalid

record Token =
  TokenStart :: nat
  TokenEnd :: nat
  TokenType :: TokenType
  Content :: string
  Completed :: bool

text \<open>
  The Go struct also holds a \<^verbatim>\<open>contentBuilder\<close>; it is scratch space that
  \<^verbatim>\<open>buildString\<close> resets before each use, so it carries no state.
\<close>

record StreamJSONTokenizer =
  buffer :: string
  position :: nat
  lastToken :: "Token option"
  escapeNext :: bool
  expectingKey :: bool

definition trueBytes :: string where "trueBytes = ''true''"
definition falseBytes :: string where "falseBytes = ''false''"
definition nullBytes :: string where "nullBytes = ''null''"

definition NewStreamJSONTokenizer :: StreamJSONTokenizer where
  "NewStreamJSONTokenizer =
     \<lparr>buffer = [], position = 0, lastToken = None, escapeNext = False, expectingKey = False\<rparr>"

text \<open>\<^verbatim>\<open>StreamJSONTokenizer.Append\<close>: the buffer only ever grows at its end.\<close>

definition tokenizerAppend :: "StreamJSONTokenizer \<Rightarrow> string \<Rightarrow> StreamJSONTokenizer" where
  "tokenizerAppend t content = t\<lparr>buffer := buffer t @ content\<rparr>"

definition mkToken :: "nat \<Rightarrow> nat \<Rightarrow> TokenType \<Rightarrow> string \<Rightarrow> bool \<Rightarrow> Token" where
  "mkToken s e ty c done =
     \<lparr>TokenStart = s, TokenEnd = e, TokenType = ty, Content = c, Completed = done\<rparr>"

subsection \<open>Character classes\<close>

definition isWhitespace :: "char \<Rightarrow> bool" where
  "isWhitespace c \<longleftrightarrow> c = CHR '' '' \<or> c = CHR 0x09 \<or> c = CHR 0x0A \<or> c = CHR 0x0D"

definition isDigit :: "char \<Rightarrow> bool" where
  "isDigit c \<longleftrightarrow> CHR ''0'' \<le> c \<and> c \<le> CHR ''9''"

definition isNumberChar :: "char \<Rightarrow> bool" where
  "isNumberChar c \<longleftrightarrow>
     (CHR ''0'' \<le> c \<and> c \<le> CHR ''9'') \<or> c = CHR ''.'' \<or> c = CHR ''e'' \<or> c = CHR ''E''
     \<or> c = CHR ''+'' \<or> c = CHR ''-''"

definition isLetter :: "char \<Rightarrow> bool" where
  "isLetter c \<longleftrightarrow> (CHR ''a'' \<le> c \<and> c \<le> CHR ''z'') \<or> (CHR ''A'' \<le> c \<and> c \<le> CHR ''Z'')"

subsection \<open>The scanning loops\<close>

text \<open>
  Three loops of the source have the shape
  \<^verbatim>\<open>for t.position < len(t.buffer) && P(t.buffer[t.position]) { t.position++ }\<close>:
  the one of \<^verbatim>\<open>skipWhitespace\<close> (\<open>P = isWhitespace\<close>), the digit loops of
  \<^verbatim>\<open>parseNumber\<close> and \<^verbatim>\<open>continueNumber\<close> (\<open>P = isNumberChar\<close>) and the
  letter-run loops of the literal scanners (\<open>P = isLetter\<close>). \<open>advance\<close> is that
  loop; it returns the final position.
\<close>

function advance :: "(char \<Rightarrow> bool) \<Rightarrow> string \<Rightarrow> nat \<Rightarrow> nat" where
  "advance P buf pos =
     (if pos < length buf \<and> P (buf ! pos) then advance P buf (pos + 1) else pos)"
  by pat_completeness auto
termination
  by (relation "measure (\<lambda>(P, buf, pos). length buf - pos)") auto

declare advance.simps [simp del]

definition skipWhitespace :: "StreamJSONTokenizer \<Rightarrow> StreamJSONTokenizer" where
  "skipWhitespace t = t\<lparr>position := advance isWhitespace (buffer t) (position t)\<rparr>"

text \<open>\<^verbatim>\<open>buildString\<close>: the slice \<^verbatim>\<open>buffer[start:end]\<close>, empty when \<open>start \<ge> end\<close>.\<close>

definition buildString :: "string \<Rightarrow> nat \<Rightarrow> nat \<Rightarrow> string" where
  "buildString buf start end = (if start \<ge> end then [] else take (end - start) (drop start buf))"

text \<open>
  The loop shared by \<^verbatim>\<open>parseString\<close> and \<^verbatim>\<open>continueString\<close>. It returns the final
  position, the final escape flag, and whether an unescaped closing quote was consumed.
  \<open>CHR 0x5C\<close> is the backslash and \<open>CHR 0x22\<close> the double quote.
\<close>

function scanString :: "string \<Rightarrow> nat \<Rightarrow> bool \<Rightarrow> nat \<times> bool \<times> bool" where
  "scanString buf pos esc =
     (if pos < length buf then
        (let char = buf ! pos in
         if esc then scanString buf (pos + 1) False
         else if char = CHR 0x5C then scanString buf (pos + 1) True
         else if char = CHR 0x22 then (pos + 1, esc, True)
         else scanString buf (pos + 1) esc)
      else (pos, esc, False))"
  by pat_completeness auto
termination
  by (relation "measure (\<lambda>(buf, pos, esc). length buf - pos)") auto

declare scanString.simps [simp del]

text \<open>
  The matching loop of the literal scanners:
  \<^verbatim>\<open>for i := i0; i < len(expected) && t.position < len(t.buffer); i++\<close>. The result is
  \<open>(False, pos)\<close> when \<open>buffer[pos]\<close> differs from \<open>expected[i]\<close> (the position is
  not yet advanced past the offending byte) and \<open>(True, pos)\<close> when the loop ran out.
\<close>

function matchExpected :: "string \<Rightarrow> string \<Rightarrow> nat \<Rightarrow> nat \<Rightarrow> bool \<times> nat" where
  "matchExpected buf expected i pos =
     (if i < length expected \<and> pos < length buf then
        (if buf ! pos \<noteq> expected ! i then (False, pos)
         else matchExpected buf expected (i + 1) (pos + 1))
      else (True, pos))"
  by pat_completeness auto
termination
  by (relation "measure (\<lambda>(buf, expected, i, pos). length expected - i)") auto

declare matchExpected.simps [simp del]

subsection \<open>Strings\<close>

definition parseString :: "StreamJSONTokenizer \<Rightarrow> nat \<Rightarrow> Token \<times> StreamJSONTokenizer" where
  "parseString t startPos =
     (let contentStart = startPos;
          (pos, esc, closed) = scanString (buffer t) (position t + 1) (escapeNext t);
          t1 = t\<lparr>position := pos, escapeNext := esc\<rparr>;
          tokenType = (if expectingKey t then ObjectKey else String);
          token = mkToken startPos pos tokenType (buildString (buffer t) contentStart pos) closed
      in if closed then (token, t1) else (token, t1\<lparr>lastToken := Some token\<rparr>))"

definition continueString :: "StreamJSONTokenizer \<Rightarrow> Token \<Rightarrow> Token \<times> StreamJSONTokenizer" where
  "continueString t token =
     (let (pos, esc, closed) = scanString (buffer t) (position t) (escapeNext t);
          t1 = t\<lparr>position := pos, escapeNext := esc\<rparr>
      in (mkToken (TokenStart token) pos (TokenType token)
            (buildString (buffer t) (TokenStart token) pos) closed, t1))"

subsection \<open>Numbers\<close>

definition parseNumber :: "StreamJSONTokenizer \<Rightarrow> nat \<Rightarrow> Token \<times> StreamJSONTokenizer" where
  "parseNumber t startPos =
     (let buf = buffer t;
          p0 = (if position t < length buf \<and> buf ! position t = CHR ''-''
                then position t + 1 else position t);
          pos = advance isNumberChar buf p0;
          completed = (pos < length buf \<and> \<not> isNumberChar (buf ! pos));
          t1 = t\<lparr>position := pos\<rparr>;
          token = mkToken startPos pos Number (buildString buf startPos pos) completed
      in if \<not> completed then (token, t1\<lparr>lastToken := Some token\<rparr>) else (token, t1))"

definition continueNumber :: "StreamJSONTokenizer \<Rightarrow> Token \<Rightarrow> Token \<times> StreamJSONTokenizer" where
  "continueNumber t token =
     (let buf = buffer t;
          pos = advance isNumberChar buf (position t);
          completed = (pos < length buf \<and> \<not> isNumberChar (buf ! pos));
          t1 = t\<lparr>position := pos\<rparr>
      in (mkToken (TokenStart token) pos Number (buildString buf (TokenStart token) pos) completed,
          t1))"

subsection \<open>The literals true, false and null\<close>

text \<open>
  \<^verbatim>\<open>parseBool\<close> and \<^verbatim>\<open>parseNull\<close> have the same body up to the expected word and
  the type of the resulting token, and so have \<^verbatim>\<open>continueBool\<close> and
  \<^verbatim>\<open>continueNull\<close>; \<open>parseWord\<close> and \<open>continueWord\<close> are those bodies. The length
  tests \<^verbatim>\<open>t.position-startPos == len(expected)\<close> are on Go's signed \<^verbatim>\<open>int\<close>.
\<close>

definition parseWord ::
  "string \<Rightarrow> TokenType \<Rightarrow> StreamJSONTokenizer \<Rightarrow> nat \<Rightarrow> Token \<times> StreamJSONTokenizer" where
  "parseWord expected ty t startPos =
     (let buf = buffer t in
      case matchExpected buf expected 0 (position t) of
        (False, pos) \<Rightarrow>
          (mkToken startPos (pos + 1) Invalid (buildString buf startPos (pos + 1)) True,
           t\<lparr>position := pos + 1\<rparr>)
      | (True, pos) \<Rightarrow>
          if int pos - int startPos = int (length expected) then
            (if pos < length buf \<and> isLetter (buf ! pos) then
               (let pos2 = advance isLetter buf pos in
                (mkToken startPos pos2 Invalid (buildString buf startPos pos2) True,
                 t\<lparr>position := pos2\<rparr>))
             else (mkToken startPos pos ty (buildString buf startPos pos) True,
                   t\<lparr>position := pos\<rparr>))
          else
            (let token = mkToken startPos pos ty (buildString buf startPos pos) False
             in (token, t\<lparr>position := pos, lastToken := Some token\<rparr>)))"

definition continueWord ::
  "string \<Rightarrow> TokenType \<Rightarrow> StreamJSONTokenizer \<Rightarrow> Token \<Rightarrow> Token \<times> StreamJSONTokenizer" where
  "continueWord expected ty t token =
     (let buf = buffer t; tokenLen = TokenEnd token - TokenStart token in
      case matchExpected buf expected tokenLen (position t) of
        (False, pos) \<Rightarrow>
          (let pos2 = advance isLetter buf pos in
           (mkToken (TokenStart token) pos2 Invalid (buildString buf (TokenStart token) pos2) True,
            t\<lparr>position := pos2\<rparr>))
      | (True, pos) \<Rightarrow>
          if int pos - int (TokenStart token) = int (length expected) then
            (if pos < length buf \<and> isLetter (buf ! pos) then
               (let pos2 = advance isLetter buf pos in
                (mkToken (TokenStart token) pos2 Invalid
                   (buildString buf (TokenStart token) pos2) True,
                 t\<lparr>position := pos2\<rparr>))
             else (mkToken (TokenStart token) pos ty
                     (buildString buf (TokenStart token) pos) True,
                   t\<lparr>position := pos\<rparr>))
          else (mkToken (TokenStart token) pos ty
                  (buildString buf (TokenStart token) pos) False,
                t\<lparr>position := pos\<rparr>))"

definition parseBool :: "StreamJSONTokenizer \<Rightarrow> nat \<Rightarrow> Token \<times> StreamJSONTokenizer" where
  "parseBool t startPos =
     parseWord (if buffer t ! position t = CHR ''t'' then trueBytes else falseBytes) Bool t startPos"

definition continueBool :: "StreamJSONTokenizer \<Rightarrow> Token \<Rightarrow> Token \<times> StreamJSONTokenizer" where
  "continueBool t token =
     continueWord
       (if TokenEnd token - TokenStart token > 0 \<and> buffer t ! TokenStart token = CHR ''t''
        then trueBytes else falseBytes) Bool t token"

definition parseNull :: "StreamJSONTokenizer \<Rightarrow> nat \<Rightarrow> Token \<times> StreamJSONTokenizer" where
  "parseNull t startPos = parseWord nullBytes Null t startPos"

definition continueNull :: "StreamJSONTokenizer \<Rightarrow> Token \<Rightarrow> Token \<times> StreamJSONTokenizer" where
  "continueNull t token = continueWord nullBytes Null t token"

subsection \<open>NextToken\<close>

definition continueToken :: "StreamJSONTokenizer \<Rightarrow> Token \<times> StreamJSONTokenizer" where
  "continueToken t =
     (case lastToken t of
        None \<Rightarrow> (mkToken 0 0 Invalid [] True, t)
      | Some lt \<Rightarrow>
          (case TokenType lt of
             String \<Rightarrow> continueString t lt
           | ObjectKey \<Rightarrow> continueString t lt
           | Number \<Rightarrow> continueNumber t lt
           | Bool \<Rightarrow> continueBool t lt
           | Null \<Rightarrow> continueNull t lt
           | _ \<Rightarrow> (lt, t)))"

text \<open>The guard of the first \<^verbatim>\<open>if\<close> of \<^verbatim>\<open>NextToken\<close>: an incomplete token is pending.\<close>

definition pending :: "StreamJSONTokenizer \<Rightarrow> bool" where
  "pending t = (case lastToken t of None \<Rightarrow> False | Some lt \<Rightarrow> \<not> Completed lt)"

text \<open>The part of \<^verbatim>\<open>NextToken\<close> after that guard: scan a fresh token.\<close>

definition scanToken :: "StreamJSONTokenizer \<Rightarrow> Token \<times> StreamJSONTokenizer" where
  "scanToken t0 =
     (let t = skipWhitespace t0 in
      if position t \<ge> length (buffer t) then (mkToken (position t) (position t) EOF [] True, t)
      else
        (let startPos = position t; char = buffer t ! position t in
         if char = CHR ''{'' then
           (mkToken startPos (startPos + 1) ObjectStart ''{'' True,
            t\<lparr>position := startPos + 1, expectingKey := True\<rparr>)
         else if char = CHR ''}'' then
           (mkToken startPos (startPos + 1) ObjectEnd ''}'' True,
            t\<lparr>position := startPos + 1, expectingKey := False\<rparr>)
         else if char = CHR ''['' then
           (mkToken startPos (startPos + 1) ArrayStart ''['' True,
            t\<lparr>position := startPos + 1, expectingKey := False\<rparr>)
         else if char = CHR '']'' then
           (mkToken startPos (startPos + 1) ArrayEnd '']'' True, t\<lparr>position := startPos + 1\<rparr>)
         else if char = CHR '':'' then
           (mkToken startPos (startPos + 1) Colon '':'' True,
            t\<lparr>position := startPos + 1, expectingKey := False\<rparr>)
         else if char = CHR '','' then
           (mkToken startPos (startPos + 1) Comma '','' True,
            t\<lparr>position := startPos + 1, expectingKey := True\<rparr>)
         else if char = CHR 0x22 then parseString t startPos
         else if char = CHR ''t'' \<or> char = CHR ''f'' then parseBool t startPos
         else if char = CHR ''n'' then parseNull t startPos
         else if char = CHR ''-'' \<or> (CHR ''0'' \<le> char \<and> char \<le> CHR ''9'') then
           parseNumber t startPos
         else (mkToken startPos (startPos + 1) Invalid [char] True,
               t\<lparr>position := startPos + 1\<rparr>)))"

definition NextToken :: "StreamJSONTokenizer \<Rightarrow> Token \<times> StreamJSONTokenizer" where
  "NextToken t =
     (if pending t then
        (let (token, t1) = continueToken t in
         if Completed token then (token, t1\<lparr>lastToken := None\<rparr>)
         else (token, t1\<lparr>lastToken := Some token\<rparr>))
      else scanToken t)"

section \<open>Scalar decoding and the Go library functions it calls\<close>

text \<open>
  \<^verbatim>\<open>strconv.ParseInt(s, 10, 64)\<close> of the Go standard library, by its documentation: an
  optional sign \<open>+\<close> or \<open>-\<close>, then at least one decimal digit and nothing else; the
  result is an error (here \<open>None\<close>) on a syntax error and when the value does not fit a
  signed 64-bit integer. \<^verbatim>\<open>strconv.Atoi(s)\<close> is \<^verbatim>\<open>ParseInt(s, 10, 0)\<close>, with an
  \<^verbatim>\<open>int\<close> of 64 bits.
\<close>

definition digitVal :: "char \<Rightarrow> int" where
  "digitVal c = int (of_char c) - int (of_char CHR ''0'')"

definition decimalValue :: "string \<Rightarrow> int" where
  "decimalValue ds = foldl (\<lambda>n c. n * 10 + digitVal c) 0 ds"

definition ParseInt :: "string \<Rightarrow> int option" where
  "ParseInt s =
     (case s of
        [] \<Rightarrow> None
      | c # cs \<Rightarrow>
          (let neg = (c = CHR ''-'');
               ds = (if c = CHR ''+'' \<or> c = CHR ''-'' then cs else s)
           in if ds = [] \<or> \<not> list_all isDigit ds then None
              else (let un = decimalValue ds in
                    if \<not> neg \<and> un \<ge> 2 ^ 63 then None
                    else if neg \<and> un > 2 ^ 63 then None
                    else Some (if neg then - un else un))))"

definition Atoi :: "string \<Rightarrow> int option" where
  "Atoi s = ParseInt s"

text \<open>
  A Go \<^verbatim>\<open>interface{}\<close> as this package fills it: \<^verbatim>\<open>nil\<close>, a string, an
  \<^verbatim>\<open>int64\<close>, a \<^verbatim>\<open>float64\<close>, a \<^verbatim>\<open>bool\<close>, or a \<^verbatim>\<open>*Node\<close>. Floating point is
  kept abstract: \<open>'f\<close> is the type of 64-bit floats, and \<^verbatim>\<open>strconv.ParseFloat(s, 64)\<close>
  is a parameter \<open>pf :: string \<Rightarrow> 'f option\<close> of every function that reaches it.
\<close>

type_synonym addr = nat

datatype 'f iface = INil | Str string | Int64 int | Float64 'f | Boolean bool | NodePtr addr

text \<open>
  The loop of \<^verbatim>\<open>parseTokenValue\<close> that sets \<^verbatim>\<open>hasDecimal\<close> and \<^verbatim>\<open>hasExp\<close>; it
  breaks at the first byte that sets one of them.
\<close>

fun numberFlags :: "string \<Rightarrow> bool \<times> bool" where
  "numberFlags [] = (False, False)"
| "numberFlags (c # cs) =
     (if c = CHR ''.'' then (True, False)
      else if c = CHR ''e'' \<or> c = CHR ''E'' then (False, True)
      else numberFlags cs)"

definition stripQuotes :: "string \<Rightarrow> string" where
  "stripQuotes content =
     (if length content \<ge> 2 \<and> content ! 0 = CHR 0x22 \<and> content ! (length content - 1) = CHR 0x22
      then take (length content - 2) (drop 1 content) else content)"

definition parseTokenValue :: "(string \<Rightarrow> 'f option) \<Rightarrow> Token \<Rightarrow> 'f iface" where
  "parseTokenValue pf token =
     (let content = Content token in
      case TokenType token of
        String \<Rightarrow> Str (stripQuotes content)
      | Number \<Rightarrow>
          (let (hasDecimal, hasExp) = numberFlags content;
               asFloat = (case pf content of Some val \<Rightarrow> Float64 val | None \<Rightarrow> Str content)
           in if \<not> hasDecimal \<and> \<not> hasExp then
                (case ParseInt content of Some val \<Rightarrow> Int64 val | None \<Rightarrow> asFloat)
              else asFloat)
      | Bool \<Rightarrow> Boolean (length content = 4 \<and> content ! 0 = CHR ''t'')
      | Null \<Rightarrow> INil
      | _ \<Rightarrow> Str content)"

section \<open>The AST builder\<close>

subsection \<open>Nodes, frames and the parser state\<close>

datatype NodeType = ObjectNode | ArrayNode | ValueNode

text \<open>
  Nodes are shared between the tree and the parse stack through pointers, so they live in
  a heap: a \<^verbatim>\<open>*Node\<close> is an address, and \<^verbatim>\<open>nil\<close> where the source allows it is
  \<open>None\<close>. A \<^verbatim>\<open>nil\<close> map reads like an empty one.
\<close>

record 'f Node =
  Type :: NodeType
  Value :: "'f iface"
  Children :: "string \<rightharpoonup> addr"
  Array :: "addr list"
  Completed :: bool
  Parent :: "addr option"

record StackFrame =
  Node :: addr
  CurrentKey :: string
  ExpectingKey :: bool
  ExpectingValue :: bool

text \<open>
  \<open>stack\<close> is kept with the top frame first: \<^verbatim>\<open>p.stack[len(p.stack)-1]\<close> is its head
  and \<^verbatim>\<open>append(p.stack, frame)\<close> is \<open>frame # stack\<close>. \<open>heap\<close> and \<open>nextAddr\<close> are the
  part of the Go heap that holds this parser's nodes. The parser never calls
  \<^verbatim>\<open>ReleaseNode\<close>, so every \<^verbatim>\<open>NewNode\<close> is a node no live pointer refers to: the
  address \<open>nextAddr\<close>.
\<close>

record 'f StreamJSONParser =
  tokenizer :: StreamJSONTokenizer
  root :: "addr option"
  stack :: "StackFrame list"
  started :: bool
  heap :: "addr \<Rightarrow> 'f Node"
  nextAddr :: addr

definition NewNode :: "NodeType \<Rightarrow> 'f Node" where
  "NewNode nodeType =
     \<lparr>Type = nodeType, Value = INil, Children = Map.empty, Array = [], Completed = False,
      Parent = None\<rparr>"

definition newStackFrame :: StackFrame where
  "newStackFrame = \<lparr>Node = 0, CurrentKey = [], ExpectingKey = False, ExpectingValue = False\<rparr>"

definition NewStreamJSONParser :: "'f StreamJSONParser" where
  "NewStreamJSONParser =
     \<lparr>tokenizer = NewStreamJSONTokenizer, root = None, stack = [], started = False,
      heap = (\<lambda>a. NewNode ValueNode), nextAddr = 0\<rparr>"

subsection \<open>Handlers of complete tokens\<close>

text \<open>
  \<open>attachChild\<close> is the \<^verbatim>\<open>if\<close>/\<^verbatim>\<open>else if\<close> that \<^verbatim>\<open>handleObjectStart\<close> and
  \<^verbatim>\<open>handleArrayStart\<close> share: the new node \<open>a\<close> becomes the value of the pending
  key of an object (and the key is cleared) or the last element of an array.
\<close>

definition attachChild :: "addr \<Rightarrow> StackFrame \<Rightarrow> (addr \<Rightarrow> 'f Node) \<Rightarrow> StackFrame \<times> (addr \<Rightarrow> 'f Node)" where
  "attachChild a currentFrame h =
     (let n = h (Node currentFrame) in
      if Type n = ObjectNode \<and> CurrentKey currentFrame \<noteq> [] then
        (currentFrame\<lparr>CurrentKey := []\<rparr>,
         h(Node currentFrame := n\<lparr>Children := (Children n)(CurrentKey currentFrame \<mapsto> a)\<rparr>))
      else if Type n = ArrayNode then
        (currentFrame, h(Node currentFrame := n\<lparr>Array := Array n @ [a]\<rparr>))
      else (currentFrame, h))"

definition handleObjectStart :: "'f StreamJSONParser \<Rightarrow> 'f StreamJSONParser" where
  "handleObjectStart p =
     (case stack p of
        [] \<Rightarrow> p
      | currentFrame # rest \<Rightarrow>
          (let a = nextAddr p;
               newNode = (NewNode ObjectNode)\<lparr>Parent := Some (Node currentFrame)\<rparr>;
               (currentFrame', h) = attachChild a currentFrame ((heap p)(a := newNode));
               frame = newStackFrame\<lparr>Node := a, ExpectingKey := True\<rparr>
           in p\<lparr>heap := h, nextAddr := a + 1, stack := frame # currentFrame' # rest\<rparr>))"

definition handleArrayStart :: "'f StreamJSONParser \<Rightarrow> 'f StreamJSONParser" where
  "handleArrayStart p =
     (case stack p of
        [] \<Rightarrow> p
      | currentFrame # rest \<Rightarrow>
          (let a = nextAddr p;
               newNode = (NewNode ArrayNode)\<lparr>Parent := Some (Node currentFrame)\<rparr>;
               (currentFrame', h) = attachChild a currentFrame ((heap p)(a := newNode));
               frame = newStackFrame\<lparr>Node := a, ExpectingValue := True\<rparr>
           in p\<lparr>heap := h, nextAddr := a + 1, stack := frame # currentFrame' # rest\<rparr>))"

text \<open>The update of the parent frame at the end of \<^verbatim>\<open>handleObjectEnd\<close> and \<^verbatim>\<open>handleArrayEnd\<close>.\<close>

definition valueSlotFilled :: "(addr \<Rightarrow> 'f Node) \<Rightarrow> StackFrame \<Rightarrow> StackFrame" where
  "valueSlotFilled h parentFrame =
     (if Type (h (Node parentFrame)) = ObjectNode then
        parentFrame\<lparr>ExpectingKey := False, ExpectingValue := False\<rparr>
      else if Type (h (Node parentFrame)) = ArrayNode then parentFrame\<lparr>ExpectingValue := False\<rparr>
      else parentFrame)"

definition handleObjectEnd :: "'f StreamJSONParser \<Rightarrow> 'f StreamJSONParser" where
  "handleObjectEnd p =
     (case stack p of
        [] \<Rightarrow> p
      | currentFrame # rest \<Rightarrow>
          (let h = (heap p)(Node currentFrame := (heap p (Node currentFrame))\<lparr>Completed := True\<rparr>)
           in p\<lparr>heap := h,
                stack := (case rest of [] \<Rightarrow> []
                          | parentFrame # rest' \<Rightarrow> valueSlotFilled h parentFrame # rest')\<rparr>))"

definition handleArrayEnd :: "'f StreamJSONParser \<Rightarrow> 'f StreamJSONParser" where
  "handleArrayEnd p =
     (case stack p of
        [] \<Rightarrow> p
      | currentFrame # rest \<Rightarrow>
          (let h = (heap p)(Node currentFrame := (heap p (Node currentFrame))\<lparr>Completed := True\<rparr>)
           in p\<lparr>heap := h,
                stack := (case rest of [] \<Rightarrow> []
                          | parentFrame # rest' \<Rightarrow> valueSlotFilled h parentFrame # rest')\<rparr>))"

definition handleObjectKey :: "Token \<Rightarrow> 'f StreamJSONParser \<Rightarrow> 'f StreamJSONParser" where
  "handleObjectKey token p =
     (case stack p of
        [] \<Rightarrow> p
      | currentFrame # rest \<Rightarrow>
          if Type (heap p (Node currentFrame)) = ObjectNode then
            p\<lparr>stack := currentFrame\<lparr>CurrentKey := stripQuotes (Content token),
                                     ExpectingKey := False\<rparr> # rest\<rparr>
          else p)"

definition handleColon :: "'f StreamJSONParser \<Rightarrow> 'f StreamJSONParser" where
  "handleColon p =
     (case stack p of
        [] \<Rightarrow> p
      | currentFrame # rest \<Rightarrow>
          if Type (heap p (Node currentFrame)) = ObjectNode then
            p\<lparr>stack := currentFrame\<lparr>ExpectingKey := False, ExpectingValue := True\<rparr> # rest\<rparr>
          else p)"

definition handleComma :: "'f StreamJSONParser \<Rightarrow> 'f StreamJSONParser" where
  "handleComma p =
     (case stack p of
        [] \<Rightarrow> p
      | currentFrame # rest \<Rightarrow>
          if Type (heap p (Node currentFrame)) = ObjectNode then
            p\<lparr>stack := currentFrame\<lparr>ExpectingKey := True, ExpectingValue := False,
                                     CurrentKey := []\<rparr> # rest\<rparr>
          else if Type (heap p (Node currentFrame)) = ArrayNode then
            p\<lparr>stack := currentFrame\<lparr>ExpectingValue := True\<rparr> # rest\<rparr>
          else p)"

definition handleValue :: "(string \<Rightarrow> 'f option) \<Rightarrow> Token \<Rightarrow> 'f StreamJSONParser \<Rightarrow> 'f StreamJSONParser" where
  "handleValue pf token p =
     (case stack p of
        [] \<Rightarrow> p
      | currentFrame # rest \<Rightarrow>
          (let a = nextAddr p;
               valueNode = (NewNode ValueNode)\<lparr>Value := parseTokenValue pf token, Completed := True,
                                               Parent := Some (Node currentFrame)\<rparr>;
               h = (heap p)(a := valueNode);
               n = h (Node currentFrame)
           in if Type n = ObjectNode \<and> CurrentKey currentFrame \<noteq> [] then
                p\<lparr>heap := h(Node currentFrame :=
                             n\<lparr>Children := (Children n)(CurrentKey currentFrame \<mapsto> a)\<rparr>),
                  nextAddr := a + 1,
                  stack := currentFrame\<lparr>CurrentKey := [], ExpectingValue := False\<rparr> # rest\<rparr>
              else if Type n = ArrayNode then
                p\<lparr>heap := h(Node currentFrame := n\<lparr>Array := Array n @ [a]\<rparr>),
                  nextAddr := a + 1,
                  stack := currentFrame\<lparr>ExpectingValue := False\<rparr> # rest\<rparr>
              else p\<lparr>heap := h, nextAddr := a + 1\<rparr>))"

definition processCompleteToken :: "(string \<Rightarrow> 'f option) \<Rightarrow> Token \<Rightarrow> 'f StreamJSONParser \<Rightarrow> 'f StreamJSONParser" where
  "processCompleteToken pf token p =
     (if stack p = [] then p
      else case TokenType token of
             ObjectStart \<Rightarrow> handleObjectStart p
           | ArrayStart \<Rightarrow> handleArrayStart p
           | ObjectEnd \<Rightarrow> handleObjectEnd p
           | ArrayEnd \<Rightarrow> handleArrayEnd p
           | ObjectKey \<Rightarrow> handleObjectKey token p
           | Colon \<Rightarrow> handleColon p
           | Comma \<Rightarrow> handleComma p
           | String \<Rightarrow> handleValue pf token p
           | Number \<Rightarrow> handleValue pf token p
           | Bool \<Rightarrow> handleValue pf token p
           | Null \<Rightarrow> handleValue pf token p
           | _ \<Rightarrow> p)"

subsection \<open>Partial materialisation of an incomplete string\<close>

definition processIncompleteToken :: "Token \<Rightarrow> 'f StreamJSONParser \<Rightarrow> 'f StreamJSONParser" where
  "processIncompleteToken token p =
     (case stack p of
        [] \<Rightarrow> p
      | currentFrame # rest \<Rightarrow>
          if TokenType token = String \<and> Type (heap p (Node currentFrame)) = ObjectNode
             \<and> CurrentKey currentFrame \<noteq> [] then
            (let content = Content token in
             if length content \<ge> 1 \<and> content ! 0 = CHR 0x22 then
               (let partialValue = drop 1 content;
                    a = nextAddr p;
                    valueNode = (NewNode ValueNode)\<lparr>Value := Str partialValue, Completed := False,
                                                    Parent := Some (Node currentFrame)\<rparr>;
                    h = (heap p)(a := valueNode);
                    n = h (Node currentFrame)
                in p\<lparr>heap := h(Node currentFrame :=
                                n\<lparr>Children := (Children n)(CurrentKey currentFrame \<mapsto> a)\<rparr>),
                     nextAddr := a + 1\<rparr>)
             else p)
          else p)"

subsection \<open>The drain loop and Append\<close>

text \<open>The two branches of \<^verbatim>\<open>processTokens\<close> that create the root and the first frame.\<close>

definition startRoot :: "NodeType \<Rightarrow> 'f StreamJSONParser \<Rightarrow> 'f StreamJSONParser" where
  "startRoot nodeType p =
     (let a = nextAddr p;
          frame = (if nodeType = ObjectNode then newStackFrame\<lparr>Node := a, ExpectingKey := True\<rparr>
                   else newStackFrame\<lparr>Node := a, ExpectingValue := True\<rparr>)
      in p\<lparr>heap := (heap p)(a := NewNode nodeType), nextAddr := a + 1, root := Some a,
           stack := frame # stack p, started := True\<rparr>)"

text \<open>
  \<^verbatim>\<open>processTokens\<close> is a \<^verbatim>\<open>for\<close> without a condition. \<open>drainStep\<close> is one
  run of its body: the flag says whether the loop goes round again (\<^verbatim>\<open>continue\<close>, or
  the end of the body) or leaves (\<^verbatim>\<open>break\<close>). The first argument of
  \<open>processTokens\<close> after \<open>pf\<close> bounds the number of iterations: \<open>None\<close> is a loop
  that has not left within that many.
\<close>

definition drainStep :: "(string \<Rightarrow> 'f option) \<Rightarrow> 'f StreamJSONParser \<Rightarrow> bool \<times> 'f StreamJSONParser" where
  "drainStep pf p =
     (let (token, t') = NextToken (tokenizer p);
          p1 = p\<lparr>tokenizer := t'\<rparr>
      in if TokenType token = EOF then (False, p1)
         else if TokenType token = Invalid then (True, p1)
         else if \<not> started p1 then
           (if TokenType token = ObjectStart then (True, startRoot ObjectNode p1)
            else if TokenType token = ArrayStart then (True, startRoot ArrayNode p1)
            else (True, p1))
         else if Token.Completed token then (True, processCompleteToken pf token p1)
         else (False, processIncompleteToken token p1))"

fun processTokens :: "(string \<Rightarrow> 'f option) \<Rightarrow> nat \<Rightarrow> 'f StreamJSONParser \<Rightarrow> 'f StreamJSONParser option" where
  "processTokens pf 0 p = None"
| "processTokens pf (Suc n) p =
     (case drainStep pf p of
        (True, p') \<Rightarrow> processTokens pf n p'
      | (False, p') \<Rightarrow> Some p')"

definition Append :: "(string \<Rightarrow> 'f option) \<Rightarrow> nat \<Rightarrow> 'f StreamJSONParser \<Rightarrow> string \<Rightarrow> 'f StreamJSONParser option" where
  "Append pf fuel p content =
     processTokens pf fuel (p\<lparr>tokenizer := tokenizerAppend (tokenizer p) content\<rparr>)"

subsection \<open>The path accessor\<close>

text \<open>
  The result of a node at the end of a path, as the three places of \<^verbatim>\<open>getFromNode\<close>
  compute it: the scalar of a Value node, the node itself otherwise.
\<close>

definition nodeResult :: "(addr \<Rightarrow> 'f Node) \<Rightarrow> addr \<Rightarrow> 'f iface" where
  "nodeResult h node = (if Type (h node) = ValueNode then Value (h node) else NodePtr node)"

fun getFromNode :: "(addr \<Rightarrow> 'f Node) \<Rightarrow> addr \<Rightarrow> string list \<Rightarrow> 'f iface" where
  "getFromNode h node [] = nodeResult h node"
| "getFromNode h node (key # remainingKeys) =
     (case Type (h node) of
        ObjectNode \<Rightarrow>
          (case Children (h node) key of
             Some child \<Rightarrow>
               if remainingKeys = [] then nodeResult h child
               else getFromNode h child remainingKeys
           | None \<Rightarrow> INil)
      | ArrayNode \<Rightarrow>
          (case Atoi key of
             Some index \<Rightarrow>
               if index \<ge> 0 \<and> index < int (length (Array (h node))) then
                 (let child = Array (h node) ! nat index in
                  if remainingKeys = [] then nodeResult h child
                  else getFromNode h child remainingKeys)
               else INil
           | None \<Rightarrow> INil)
      | ValueNode \<Rightarrow> INil)"

definition Get :: "'f StreamJSONParser \<Rightarrow> string list \<Rightarrow> 'f iface" where
  "Get p keys =
     (case root p of
        None \<Rightarrow> INil
      | Some r \<Rightarrow> if keys = [] then INil else getFromNode (heap p) r keys)"

definition IsCompleted :: "'f StreamJSONParser \<Rightarrow> bool" where
  "IsCompleted p \<longleftrightarrow> stack p = [] \<and> started p"

section \<open>Predicates used to state the properties\<close>

text \<open>
  A parser that has not started and whose tokenizer holds an unfinished string or an
  unfinished number with no byte left to read.
\<close>

definition hungBeforeStart :: "'f StreamJSONParser \<Rightarrow> bool" where
  "hungBeforeStart p \<longleftrightarrow>
     \<not> started p \<and>
     (case lastToken (tokenizer p) of
        None \<Rightarrow> False
      | Some lt \<Rightarrow> \<not> Token.Completed lt \<and> (TokenType lt = String \<or> TokenType lt = Number)
                   \<and> length (buffer (tokenizer p)) \<le> position (tokenizer p))"

text \<open>
  The node a path leads to, following keys and indices the way \<^verbatim>\<open>getFromNode\<close> does;
  \<open>None\<close> when a segment finds nothing.
\<close>

fun walk :: "(addr \<Rightarrow> 'f Node) \<Rightarrow> addr \<Rightarrow> string list \<Rightarrow> addr option" where
  "walk h node [] = Some node"
| "walk h node (key # keys) =
     (case Type (h node) of
        ObjectNode \<Rightarrow>
          (case Children (h node) key of Some child \<Rightarrow> walk h child keys | None \<Rightarrow> None)
      | ArrayNode \<Rightarrow>
          (case Atoi key of
             Some index \<Rightarrow>
               if index \<ge> 0 \<and> index < int (length (Array (h node)))
               then walk h (Array (h node) ! nat index) keys else None
           | None \<Rightarrow> None)
      | ValueNode \<Rightarrow> None)"

text \<open>The parser states a caller can be in: a new parser, and whatever \<open>Append\<close> returns.\<close>

inductive reachable :: "(string \<Rightarrow> 'f option) \<Rightarrow> 'f StreamJSONParser \<Rightarrow> bool"
  for pf :: "string \<Rightarrow> 'f option" where
  new: "reachable pf NewStreamJSONParser"
| append: "reachable pf p \<Longrightarrow> Append pf fuel p content = Some p' \<Longrightarrow> reachable pf p'"

text \<open>
  What holds of the tokenizer between calls: the cursor is inside the buffer, a pending
  token is of a kind that can be resumed, and a pending string starts at a quote that
  the cursor has passed.
\<close>

definition tokenizerInv :: "StreamJSONTokenizer \<Rightarrow> bool" where
  "tokenizerInv t \<longleftrightarrow>
     position t \<le> length (buffer t) \<and>
     (case lastToken t of
        None \<Rightarrow> True
      | Some lt \<Rightarrow>
          Token.Completed lt \<or>
          (TokenType lt \<in> {String, ObjectKey, Number, Bool, Null} \<and>
           (TokenType lt \<notin> {String, ObjectKey} \<or>
            (TokenStart lt < position t \<and> buffer t ! TokenStart lt = CHR 0x22))))"

definition parserInv :: "'f StreamJSONParser \<Rightarrow> bool" where
  "parserInv p \<longleftrightarrow>
     tokenizerInv (tokenizer p) \<and> list_all (\<lambda>f. Node f < nextAddr p) (stack p) \<and>
     (started p \<or> (stack p = [] \<and> root p = None))"

text \<open>The work left for the tokenizer: twice the unread bytes, plus one for a pending token.\<close>

definition remaining :: "StreamJSONTokenizer \<Rightarrow> nat" where
  "remaining t = 2 * (length (buffer t) - position t) + (if pending t then 1 else 0)"


text \<open>
  The three ways a call of \<^verbatim>\<open>NextToken\<close> can end: at the end of the input, with an
  unfinished token that it keeps as pending, or with a finished token and less work left.
\<close>

definition scanOutcome :: "StreamJSONTokenizer \<Rightarrow> Token \<Rightarrow> StreamJSONTokenizer \<Rightarrow> bool" where
  "scanOutcome t tok t' \<longleftrightarrow>
     TokenType tok = EOF \<and> Token.Completed tok \<and> \<not> pending t'
     \<or> (\<not> Token.Completed tok \<and> TokenType tok \<in> {String, ObjectKey, Number, Bool, Null}
         \<and> lastToken t' = Some tok)
     \<or> (Token.Completed tok \<and> remaining t' < remaining t)"

text \<open>Every frame of the stack points to a node that has been allocated.\<close>

definition framesFresh :: "'f StreamJSONParser \<Rightarrow> bool" where
  "framesFresh p \<longleftrightarrow> list_all (\<lambda>f. Node f < nextAddr p) (stack p)"

text \<open>
  \<open>numberRun buf from e\<close>: the bytes of \<open>buf\<close> from \<open>from\<close> up to \<open>e\<close> are all number
  characters, and \<open>e\<close> is the end of the buffer or the place of the first byte that is
  not one: \<open>e\<close> is where a scan of number characters that starts at \<open>from\<close> stops.
\<close>

definition numberRun :: "string \<Rightarrow> nat \<Rightarrow> nat \<Rightarrow> bool" where
  "numberRun buf from e \<longleftrightarrow>
     from \<le> e \<and> (\<forall>i. from \<le> i \<and> i < e \<longrightarrow> isNumberChar (buf ! i))
     \<and> (e < length buf \<longrightarrow> \<not> isNumberChar (buf ! e))
     \<and> (from \<le> length buf \<longrightarrow> e \<le> length buf)"

text \<open>
  The nodes a node points to, and the shape the parser keeps its part of the heap in:
  a node only points to nodes allocated after it, and to no address that is still free.
\<close>

definition kids :: "'f Node \<Rightarrow> addr set" where
  "kids n = ran (Children n) \<union> set (Array n)"


text \<open>
  One segment of a path, as \<^verbatim>\<open>getFromNode\<close> follows it: the child of an object at a
  key, the element of an array at an index.
\<close>

definition child :: "(addr \<Rightarrow> 'f Node) \<Rightarrow> addr \<Rightarrow> string \<Rightarrow> addr option" where
  "child h node key =
     (case Type (h node) of
        ObjectNode \<Rightarrow> Children (h node) key
      | ArrayNode \<Rightarrow>
          (case Atoi key of
             Some index \<Rightarrow>
               if index \<ge> 0 \<and> index < int (length (Array (h node)))
               then Some (Array (h node) ! nat index) else None
           | None \<Rightarrow> None)
      | ValueNode \<Rightarrow> None)"




text \<open>
  What one iteration of the drain loop may do to the heap when the top frame stands at
  the node \<open>g\<close> with the pending key \<open>k\<close>: it may allocate the next free address
  for a node without children, and change \<open>g\<close> by binding \<open>k\<close> to that new node or by
  appending the new node to the array; every other node, the root, and the type, value
  and other children of \<open>g\<close> stay.
\<close>

definition grows :: "addr \<Rightarrow> string \<Rightarrow> 'f StreamJSONParser \<Rightarrow> 'f StreamJSONParser \<Rightarrow> bool" where
  "grows g k p p' \<longleftrightarrow>
     root p' = root p \<and> nextAddr p \<le> nextAddr p' \<and>
     (\<forall>b. b \<noteq> g \<and> b \<noteq> nextAddr p \<longrightarrow> heap p' b = heap p b) \<and>
     (heap p' (nextAddr p) = heap p (nextAddr p) \<or> kids (heap p' (nextAddr p)) = {}) \<and>
     Type (heap p' g) = Type (heap p g) \<and> Value (heap p' g) = Value (heap p g) \<and>
     (\<forall>key. key \<noteq> k \<longrightarrow> Children (heap p' g) key = Children (heap p g) key) \<and>
     (Children (heap p' g) k = Children (heap p g) k
        \<or> (Children (heap p' g) k = Some (nextAddr p) \<and> nextAddr p < nextAddr p')) \<and>
     (Array (heap p' g) = Array (heap p g)
        \<or> (Array (heap p' g) = Array (heap p g) @ [nextAddr p] \<and> nextAddr p < nextAddr p'))"







section \<open>Facts about the scanning loops\<close>

lemma tokenizer_New [simp]: "tokenizer NewStreamJSONParser = NewStreamJSONTokenizer"
  by (simp add: NewStreamJSONParser_def)

lemma scanString_at_end: "length buf \<le> pos \<Longrightarrow> scanString buf pos esc = (pos, esc, False)"
  by (simp add: scanString.simps)

subsection \<open>advance\<close>

lemma advance_step: "pos < length buf \<Longrightarrow> P (buf ! pos) \<Longrightarrow> advance P buf pos = advance P buf (Suc pos)"
  using advance.simps [of P buf pos] by simp

lemma advance_done: "\<not> (pos < length buf \<and> P (buf ! pos)) \<Longrightarrow> advance P buf pos = pos"
  using advance.simps [of P buf pos] by auto

lemma advance_stops: "advance P buf pos < length buf \<Longrightarrow> \<not> P (buf ! advance P buf pos)"
proof (induction P buf pos rule: advance.induct)
  case (1 P buf pos)
  show ?case
  proof (cases "pos < length buf \<and> P (buf ! pos)")
    case True
    with 1 show ?thesis by (simp add: advance_step)
  next
    case False
    with 1 show ?thesis by (auto simp: advance_done)
  qed
qed

lemma advance_ge: "pos \<le> advance P buf pos"
proof (induction P buf pos rule: advance.induct)
  case (1 P buf pos)
  show ?case
  proof (cases "pos < length buf \<and> P (buf ! pos)")
    case True
    with 1 show ?thesis by (simp add: advance_step)
  next
    case False
    then show ?thesis by (simp add: advance_done)
  qed
qed

lemma advance_le: "pos \<le> length buf \<Longrightarrow> advance P buf pos \<le> length buf"
proof (induction P buf pos rule: advance.induct)
  case (1 P buf pos)
  show ?case
  proof (cases "pos < length buf \<and> P (buf ! pos)")
    case True
    with 1 show ?thesis by (simp add: advance_step)
  next
    case False
    with 1 show ?thesis by (simp add: advance_done)
  qed
qed

lemma advance_gt: "pos < length buf \<Longrightarrow> P (buf ! pos) \<Longrightarrow> pos < advance P buf pos"
  using advance_ge [of "Suc pos" P buf] by (simp add: advance_step)

lemma advance_run: "pos \<le> i \<Longrightarrow> i < advance P buf pos \<Longrightarrow> P (buf ! i)"
proof (induction P buf pos rule: advance.induct)
  case (1 P buf pos)
  show ?case
  proof (cases "pos < length buf \<and> P (buf ! pos)")
    case True
    then have eq: "advance P buf pos = advance P buf (pos + 1)" by (simp add: advance_step)
    show ?thesis
    proof (cases "i = pos")
      case True
      with \<open>pos < length buf \<and> P (buf ! pos)\<close> show ?thesis by simp
    next
      case False
      with "1.prems" eq have "pos + 1 \<le> i" "i < advance P buf (pos + 1)" by auto
      from "1.IH" [OF True this] show ?thesis .
    qed
  next
    case False
    then have "advance P buf pos = pos" by (simp add: advance_done)
    with "1.prems" show ?thesis by simp
  qed
qed

subsection \<open>scanString\<close>

lemma scanString_end: "\<not> pos < length buf \<Longrightarrow> scanString buf pos esc = (pos, esc, False)"
  by (subst scanString.simps) simp

lemma scanString_escaped:
  "pos < length buf \<Longrightarrow> esc \<Longrightarrow> scanString buf pos esc = scanString buf (pos + 1) False"
  by (subst scanString.simps) simp

lemma scanString_backslash:
  "pos < length buf \<Longrightarrow> \<not> esc \<Longrightarrow> buf ! pos = CHR 0x5C \<Longrightarrow>
     scanString buf pos esc = scanString buf (pos + 1) True"
  by (subst scanString.simps) simp

lemma scanString_quote:
  "pos < length buf \<Longrightarrow> \<not> esc \<Longrightarrow> buf ! pos = CHR 0x22 \<Longrightarrow>
     scanString buf pos esc = (pos + 1, False, True)"
  by (subst scanString.simps) simp

lemma scanString_plain:
  "pos < length buf \<Longrightarrow> \<not> esc \<Longrightarrow> buf ! pos \<noteq> CHR 0x5C \<Longrightarrow> buf ! pos \<noteq> CHR 0x22 \<Longrightarrow>
     scanString buf pos esc = scanString buf (pos + 1) False"
  by (subst scanString.simps) simp

lemma scanString_facts:
  "scanString buf pos esc = (q, e, c) \<Longrightarrow>
     pos \<le> q \<and> (c \<longrightarrow> pos < q \<and> q \<le> length buf \<and> buf ! (q - 1) = CHR 0x22 \<and> \<not> e) \<and>
     (\<not> c \<longrightarrow> pos \<le> length buf \<longrightarrow> q = length buf)"
proof (induction buf pos esc arbitrary: q e c rule: scanString.induct)
  case (1 buf pos esc)
  note prems = "1.prems" and IH = "1.IH"
  show ?case
  proof (cases "pos < length buf")
    case False
    with prems show ?thesis by (auto simp: scanString_end)
  next
    case True
    note lt = this
    show ?thesis
    proof (cases esc)
      case True
      with lt prems have "scanString buf (pos + 1) False = (q, e, c)"
        by (simp add: scanString_escaped)
      from IH(1) [OF lt refl True this] lt show ?thesis by auto
    next
      case False
      note ne = this
      show ?thesis
      proof (cases "buf ! pos = CHR 0x5C")
        case True
        with lt ne prems have "scanString buf (pos + 1) True = (q, e, c)"
          by (simp add: scanString_backslash)
        from IH(2) [OF lt refl ne True this] lt show ?thesis by auto
      next
        case False
        note nb = this
        show ?thesis
        proof (cases "buf ! pos = CHR 0x22")
          case True
          with lt ne nb prems show ?thesis
            by (auto simp: scanString_quote)
        next
          case False
          with lt ne nb prems have "scanString buf (pos + 1) esc = (q, e, c)"
            by (simp add: scanString_plain)
          from IH(3) [OF lt refl ne nb False this] lt show ?thesis by auto
        qed
      qed
    qed
  qed
qed

subsection \<open>matchExpected\<close>

lemma matchExpected_facts:
  "matchExpected buf ex i pos = (ok, q) \<Longrightarrow>
     pos \<le> q \<and> (\<not> ok \<longrightarrow> q < length buf) \<and> (pos \<le> length buf \<longrightarrow> q \<le> length buf)"
proof (induction buf ex i pos arbitrary: ok q rule: matchExpected.induct)
  case (1 buf ex i pos)
  show ?case
  proof (cases "i < length ex \<and> pos < length buf")
    case False
    with "1.prems" show ?thesis by (auto simp: matchExpected.simps [of buf ex i pos])
  next
    case True
    show ?thesis
    proof (cases "buf ! pos \<noteq> ex ! i")
      case True
      with \<open>i < length ex \<and> pos < length buf\<close> "1.prems" show ?thesis
        by (auto simp: matchExpected.simps [of buf ex i pos])
    next
      case False
      with \<open>i < length ex \<and> pos < length buf\<close> "1.prems"
      have "matchExpected buf ex (i + 1) (pos + 1) = (ok, q)"
        by (simp add: matchExpected.simps [of buf ex i pos])
      from "1.IH" [OF \<open>i < length ex \<and> pos < length buf\<close> _ this] False
        \<open>i < length ex \<and> pos < length buf\<close> show ?thesis by auto
    qed
  qed
qed

section \<open>Facts about the scanners\<close>

lemma buildString_to_end:
  "start < length buf \<Longrightarrow> buildString buf start (length buf) = drop start buf"
  by (simp add: buildString_def)

lemma parseString_facts:
  assumes "parseString t s = (tok, t')" and "position t = s" and "s < length (buffer t)"
  shows "buffer t' = buffer t \<and> expectingKey t' = expectingKey t
       \<and> s < position t' \<and> position t' \<le> length (buffer t)
       \<and> TokenType tok = (if expectingKey t then ObjectKey else String)
       \<and> TokenStart tok = s \<and> TokenEnd tok = position t'
       \<and> (Token.Completed tok \<longrightarrow> lastToken t' = lastToken t)
       \<and> (\<not> Token.Completed tok \<longrightarrow> lastToken t' = Some tok \<and> position t' = length (buffer t)
             \<and> Content tok = drop s (buffer t))"
proof -
  obtain q e c where sc: "scanString (buffer t) (position t + 1) (escapeNext t) = (q, e, c)"
    by (cases "scanString (buffer t) (position t + 1) (escapeNext t)")
  from scanString_facts [OF sc] assms(2,3)
  have q: "s < q" "c \<longrightarrow> q \<le> length (buffer t)" "\<not> c \<longrightarrow> q = length (buffer t)" by auto
  then have "q \<le> length (buffer t)" by (cases c) auto
  with assms sc q show ?thesis
    by (cases c) (auto simp: parseString_def Let_def mkToken_def buildString_to_end)
qed

lemma continueString_facts:
  assumes "continueString t lt = (tok, t1)" and "position t \<le> length (buffer t)"
  shows "buffer t1 = buffer t \<and> expectingKey t1 = expectingKey t \<and> lastToken t1 = lastToken t
       \<and> position t \<le> position t1 \<and> position t1 \<le> length (buffer t)
       \<and> TokenType tok = TokenType lt \<and> TokenStart tok = TokenStart lt \<and> TokenEnd tok = position t1
       \<and> (Token.Completed tok \<longrightarrow> position t < position t1)
       \<and> (\<not> Token.Completed tok \<longrightarrow> position t1 = length (buffer t)
             \<and> (TokenStart lt < length (buffer t) \<longrightarrow> Content tok = drop (TokenStart lt) (buffer t)))"
proof -
  obtain q e c where sc: "scanString (buffer t) (position t) (escapeNext t) = (q, e, c)"
    by (cases "scanString (buffer t) (position t) (escapeNext t)")
  from scanString_facts [OF sc] assms(2)
  have q: "position t \<le> q" "c \<longrightarrow> position t < q \<and> q \<le> length (buffer t)"
    "\<not> c \<longrightarrow> q = length (buffer t)" by auto
  then have "q \<le> length (buffer t)" by (cases c) auto
  with assms sc q show ?thesis
    by (cases c) (auto simp: continueString_def Let_def mkToken_def buildString_to_end)
qed

lemma parseNumber_facts:
  assumes "parseNumber t s = (tok, t')" and "position t = s" and "s < length (buffer t)"
    and "buffer t ! s = CHR ''-'' \<or> isNumberChar (buffer t ! s)"
  shows "buffer t' = buffer t \<and> expectingKey t' = expectingKey t
       \<and> s < position t' \<and> position t' \<le> length (buffer t)
       \<and> TokenType tok = Number
       \<and> (Token.Completed tok \<longrightarrow> lastToken t' = lastToken t)
       \<and> (\<not> Token.Completed tok \<longrightarrow> lastToken t' = Some tok)"
proof -
  define p0 where "p0 = (if position t < length (buffer t) \<and> buffer t ! position t = CHR ''-''
                then position t + 1 else position t)"
  have "s < advance isNumberChar (buffer t) p0"
  proof (cases "buffer t ! s = CHR ''-''")
    case True
    with assms have "p0 = s + 1" by (simp add: p0_def)
    with advance_ge [of p0 isNumberChar "buffer t"] show ?thesis by simp
  next
    case False
    with assms have "p0 = s" "isNumberChar (buffer t ! s)" by (auto simp: p0_def)
    with advance_gt [of s "buffer t" isNumberChar] assms show ?thesis by simp
  qed
  moreover have "p0 \<le> length (buffer t)" using assms by (auto simp: p0_def)
  then have "advance isNumberChar (buffer t) p0 \<le> length (buffer t)" by (rule advance_le)
  ultimately show ?thesis using assms(1)
    by (auto simp: parseNumber_def Let_def mkToken_def p0_def split: if_splits)
qed

lemma continueNumber_facts:
  assumes "continueNumber t lt = (tok, t1)" and "position t \<le> length (buffer t)"
  shows "buffer t1 = buffer t \<and> expectingKey t1 = expectingKey t \<and> lastToken t1 = lastToken t
       \<and> position t \<le> position t1 \<and> position t1 \<le> length (buffer t)
       \<and> TokenType tok = Number"
  using assms advance_ge [of "position t" isNumberChar "buffer t"]
    advance_le [of "position t" "buffer t" isNumberChar]
  by (auto simp: continueNumber_def Let_def mkToken_def)

lemma parseWord_facts:
  assumes "parseWord ex ty t s = (tok, t')" and "position t = s" and "s < length (buffer t)"
    and "ex \<noteq> []"
  shows "buffer t' = buffer t \<and> expectingKey t' = expectingKey t
       \<and> position t' \<le> length (buffer t)
       \<and> (TokenType tok = ty \<or> TokenType tok = Invalid)
       \<and> (Token.Completed tok \<longrightarrow> s < position t' \<and> lastToken t' = lastToken t)
       \<and> (\<not> Token.Completed tok \<longrightarrow> lastToken t' = Some tok \<and> TokenType tok = ty)"
proof -
  obtain ok q where m: "matchExpected (buffer t) ex 0 (position t) = (ok, q)"
    by (cases "matchExpected (buffer t) ex 0 (position t)")
  from matchExpected_facts [OF m] assms(2,3)
  have q: "s \<le> q" "\<not> ok \<longrightarrow> q < length (buffer t)" "q \<le> length (buffer t)" by auto
  have a: "q \<le> advance isLetter (buffer t) q" "advance isLetter (buffer t) q \<le> length (buffer t)"
    using advance_ge [of q isLetter "buffer t"] advance_le [OF q(3), of isLetter] by auto
  show ?thesis
  proof (cases ok)
    case False
    with assms(1) m q show ?thesis by (auto simp: parseWord_def Let_def mkToken_def)
  next
    case True
    have gt: "int q - int s = int (length ex) \<Longrightarrow> s < q"
      using assms(4) by (cases ex) auto
    with True assms(1) m q a show ?thesis
      by (auto simp: parseWord_def Let_def mkToken_def split: if_splits)
  qed
qed

lemma continueWord_facts:
  assumes "continueWord ex ty t lt = (tok, t1)" and "position t \<le> length (buffer t)"
  shows "buffer t1 = buffer t \<and> expectingKey t1 = expectingKey t \<and> lastToken t1 = lastToken t
       \<and> position t \<le> position t1 \<and> position t1 \<le> length (buffer t)
       \<and> (TokenType tok = ty \<or> TokenType tok = Invalid)
       \<and> (\<not> Token.Completed tok \<longrightarrow> TokenType tok = ty)"
proof -
  obtain ok q where m: "matchExpected (buffer t) ex (TokenEnd lt - TokenStart lt) (position t) = (ok, q)"
    by (cases "matchExpected (buffer t) ex (TokenEnd lt - TokenStart lt) (position t)")
  from matchExpected_facts [OF m] assms(2)
  have q: "position t \<le> q" "q \<le> length (buffer t)" by auto
  have a: "q \<le> advance isLetter (buffer t) q" "advance isLetter (buffer t) q \<le> length (buffer t)"
    using advance_ge [of q isLetter "buffer t"] advance_le [OF q(2), of isLetter] by auto
  show ?thesis
  proof (cases ok)
    case False
    with assms(1) m q a show ?thesis by (auto simp: continueWord_def Let_def mkToken_def)
  next
    case True
    with assms(1) m q a show ?thesis
      by (auto simp: continueWord_def Let_def mkToken_def split: if_splits)
  qed
qed

lemma isNumberChar_digit: "CHR ''0'' \<le> c \<and> c \<le> CHR ''9'' \<Longrightarrow> isNumberChar c"
  by (simp add: isNumberChar_def)

lemma word_nonempty [simp]: "trueBytes \<noteq> []" "falseBytes \<noteq> []" "nullBytes \<noteq> []"
  by (simp_all add: trueBytes_def falseBytes_def nullBytes_def)

lemma single_byte_facts:
  assumes "\<not> pending t" "tokenizerInv t" "position t < length (buffer t)"
  shows "tokenizerInv (t\<lparr>position := position t + 1, expectingKey := ek\<rparr>)
       \<and> remaining (t\<lparr>position := position t + 1, expectingKey := ek\<rparr>) < remaining t"
  using assms by (auto simp: tokenizerInv_def remaining_def pending_def split: option.splits)

lemma single_byte_facts':
  assumes "\<not> pending t" "tokenizerInv t" "position t < length (buffer t)"
  shows "tokenizerInv (t\<lparr>position := position t + 1\<rparr>)
       \<and> remaining (t\<lparr>position := position t + 1\<rparr>) < remaining t"
  using assms by (auto simp: tokenizerInv_def remaining_def pending_def split: option.splits)

lemma skipWhitespace_facts:
  assumes "\<not> pending t0" "tokenizerInv t0"
  shows "\<not> pending (skipWhitespace t0) \<and> tokenizerInv (skipWhitespace t0)
       \<and> buffer (skipWhitespace t0) = buffer t0 \<and> position t0 \<le> position (skipWhitespace t0)
       \<and> lastToken (skipWhitespace t0) = lastToken t0
       \<and> expectingKey (skipWhitespace t0) = expectingKey t0
       \<and> remaining (skipWhitespace t0) \<le> remaining t0"
  using assms advance_ge [of "position t0" isWhitespace "buffer t0"]
    advance_le [of "position t0" "buffer t0" isWhitespace]
  by (auto simp: skipWhitespace_def tokenizerInv_def remaining_def pending_def split: option.splits)

lemma fresh_complete:
  assumes "\<not> pending t" "tokenizerInv t" "position t < length (buffer t)"
    and "buffer t' = buffer t" "position t < position t'" "position t' \<le> length (buffer t)"
    and "lastToken t' = lastToken t"
  shows "tokenizerInv t' \<and> remaining t' < remaining t"
  using assms by (auto simp: tokenizerInv_def remaining_def pending_def split: option.splits)

lemma parseBool_word: "\<exists>ex. ex \<noteq> [] \<and> parseBool t s = parseWord ex Bool t s"
proof (cases "buffer t ! position t = CHR ''t''")
  case True
  then show ?thesis by (intro exI [of _ trueBytes]) (simp add: parseBool_def)
next
  case False
  then show ?thesis by (intro exI [of _ falseBytes]) (simp add: parseBool_def)
qed

lemma scanToken_dispatch:
  assumes sc: "scanToken t0 = (tok, t')" and t: "t = skipWhitespace t0"
    and lt: "position t < length (buffer t)" and ch: "ch = buffer t ! position t"
  shows "(\<exists>ty c ek. tok = mkToken (position t) (position t + 1) ty c True
             \<and> t' = t\<lparr>position := position t + 1, expectingKey := ek\<rparr>)
       \<or> (\<exists>ty c. tok = mkToken (position t) (position t + 1) ty c True
             \<and> t' = t\<lparr>position := position t + 1\<rparr>)
       \<or> (ch = CHR 0x22 \<and> parseString t (position t) = (tok, t'))
       \<or> (\<exists>ex ty. ex \<noteq> [] \<and> ty \<in> {Bool, Null} \<and> parseWord ex ty t (position t) = (tok, t'))
       \<or> ((ch = CHR ''-'' \<or> isNumberChar ch) \<and> parseNumber t (position t) = (tok, t'))"
proof -
  obtain ex where ex: "ex \<noteq> []" "parseBool t (position t) = parseWord ex Bool t (position t)"
    using parseBool_word by blast
  have sc': "(if ch = CHR ''{'' then
           (mkToken (position t) (position t + 1) ObjectStart ''{'' True,
            t\<lparr>position := position t + 1, expectingKey := True\<rparr>)
         else if ch = CHR ''}'' then
           (mkToken (position t) (position t + 1) ObjectEnd ''}'' True,
            t\<lparr>position := position t + 1, expectingKey := False\<rparr>)
         else if ch = CHR ''['' then
           (mkToken (position t) (position t + 1) ArrayStart ''['' True,
            t\<lparr>position := position t + 1, expectingKey := False\<rparr>)
         else if ch = CHR '']'' then
           (mkToken (position t) (position t + 1) ArrayEnd '']'' True, t\<lparr>position := position t + 1\<rparr>)
         else if ch = CHR '':'' then
           (mkToken (position t) (position t + 1) Colon '':'' True,
            t\<lparr>position := position t + 1, expectingKey := False\<rparr>)
         else if ch = CHR '','' then
           (mkToken (position t) (position t + 1) Comma '','' True,
            t\<lparr>position := position t + 1, expectingKey := True\<rparr>)
         else if ch = CHR 0x22 then parseString t (position t)
         else if ch = CHR ''t'' \<or> ch = CHR ''f'' then parseWord ex Bool t (position t)
         else if ch = CHR ''n'' then parseWord nullBytes Null t (position t)
         else if ch = CHR ''-'' \<or> (CHR ''0'' \<le> ch \<and> ch \<le> CHR ''9'') then
           parseNumber t (position t)
         else (mkToken (position t) (position t + 1) Invalid [ch] True,
               t\<lparr>position := position t + 1\<rparr>)) = (tok, t')"
    using sc lt unfolding scanToken_def Let_def t [symmetric] ch [symmetric] ex(2) [symmetric] parseNull_def [symmetric]
    by simp
  show ?thesis
  proof (cases "ch = CHR ''{'' \<or> ch = CHR ''}'' \<or> ch = CHR ''['' \<or> ch = CHR '':'' \<or> ch = CHR '',''")
    case True
    with sc' have "\<exists>ty c ek. tok = mkToken (position t) (position t + 1) ty c True
             \<and> t' = t\<lparr>position := position t + 1, expectingKey := ek\<rparr>"
      by (cases "ch = CHR ''{''"; cases "ch = CHR ''}''"; cases "ch = CHR ''[''";
          cases "ch = CHR '':''") (simp_all, blast+)
    then show ?thesis by blast
  next
    case False
    note ns = this
    show ?thesis
    proof (cases "ch = CHR '']''")
      case True
      with sc' ns have "tok = mkToken (position t) (position t + 1) ArrayEnd '']'' True
             \<and> t' = t\<lparr>position := position t + 1\<rparr>"
        by auto
      then show ?thesis by blast
    next
      case False
      note nb = this
      show ?thesis
      proof (cases "ch = CHR 0x22")
        case True
        with sc' ns nb have "parseString t (position t) = (tok, t')" by simp
        with True show ?thesis by blast
      next
        case False
        note nq = this
        show ?thesis
        proof (cases "ch = CHR ''t'' \<or> ch = CHR ''f''")
          case True
          with sc' ns nb nq have "parseWord ex Bool t (position t) = (tok, t')" by auto
          with ex(1) show ?thesis by blast
        next
          case False
          note ntf = this
          show ?thesis
          proof (cases "ch = CHR ''n''")
            case True
            with sc' ns nb nq ntf have "parseWord nullBytes Null t (position t) = (tok, t')" by auto
            then show ?thesis using word_nonempty(3) by blast
          next
            case False
            note nn = this
            show ?thesis
            proof (cases "ch = CHR ''-'' \<or> (CHR ''0'' \<le> ch \<and> ch \<le> CHR ''9'')")
              case True
              with sc' ns nb nq ntf nn have "parseNumber t (position t) = (tok, t')" by auto
              moreover from True have "ch = CHR ''-'' \<or> isNumberChar ch"
                using isNumberChar_digit by blast
              ultimately show ?thesis by blast
            next
              case False
              with sc' ns nb nq ntf nn have "tok = mkToken (position t) (position t + 1) Invalid [ch] True
                 \<and> t' = t\<lparr>position := position t + 1\<rparr>"
                by auto
              then show ?thesis by blast
            qed
          qed
        qed
      qed
    qed
  qed
qed

lemma scanToken_facts:
  assumes np: "\<not> pending t0" and inv: "tokenizerInv t0" and sc: "scanToken t0 = (tok, t')"
  shows "buffer t' = buffer t0 \<and> tokenizerInv t' \<and> scanOutcome t0 tok t'"
proof -
  define t where "t = skipWhitespace t0"
  from skipWhitespace_facts [OF np inv] have t: "\<not> pending t" "tokenizerInv t" "buffer t = buffer t0"
    "remaining t \<le> remaining t0" "lastToken t = lastToken t0"
    by (auto simp: t_def)
  show ?thesis
  proof (cases "position t \<ge> length (buffer t)")
    case True
    with sc have "tok = mkToken (position t) (position t) EOF [] True" "t' = t"
      by (auto simp: scanToken_def Let_def t_def)
    with t show ?thesis by (simp add: scanOutcome_def mkToken_def)
  next
    case False
    then have lt: "position t < length (buffer t)" by simp
    define ch where "ch = buffer t ! position t"
    from scanToken_dispatch [OF sc t_def lt ch_def]
    consider (single) ty c ek where "tok = mkToken (position t) (position t + 1) ty c True"
        "t' = t\<lparr>position := position t + 1, expectingKey := ek\<rparr>"
      | (single') ty c where "tok = mkToken (position t) (position t + 1) ty c True"
        "t' = t\<lparr>position := position t + 1\<rparr>"
      | (str) "ch = CHR 0x22" "parseString t (position t) = (tok, t')"
      | (word) ex ty where "ex \<noteq> []" "ty \<in> {Bool, Null}" "parseWord ex ty t (position t) = (tok, t')"
      | (num) "ch = CHR ''-'' \<or> isNumberChar ch" "parseNumber t (position t) = (tok, t')"
      by blast
    then show ?thesis
    proof cases
      case single
      with single_byte_facts [OF t(1,2) lt, of ek] t show ?thesis
        by (auto simp: scanOutcome_def mkToken_def)
    next
      case single'
      with single_byte_facts' [OF t(1,2) lt] t show ?thesis
        by (auto simp: scanOutcome_def mkToken_def)
    next
      case str
      from parseString_facts [OF str(2) refl lt]
      have f: "buffer t' = buffer t" "position t < position t'" "position t' \<le> length (buffer t)"
        "TokenType tok = (if expectingKey t then ObjectKey else String)"
        "TokenStart tok = position t"
        "Token.Completed tok \<longrightarrow> lastToken t' = lastToken t"
        "\<not> Token.Completed tok \<longrightarrow> lastToken t' = Some tok"
        by auto
      show ?thesis
      proof (cases "Token.Completed tok")
        case True
        with f fresh_complete [OF t(1,2) lt f(1,2,3)] t show ?thesis
          by (auto simp: scanOutcome_def)
      next
        case False
        with f str(1) lt t show ?thesis
          by (auto simp: scanOutcome_def tokenizerInv_def ch_def)
      qed
    next
      case word
      from parseWord_facts [OF word(3) refl lt word(1)]
      have f: "buffer t' = buffer t" "position t' \<le> length (buffer t)"
        "Token.Completed tok \<longrightarrow> position t < position t' \<and> lastToken t' = lastToken t"
        "\<not> Token.Completed tok \<longrightarrow> lastToken t' = Some tok \<and> TokenType tok = ty"
        by auto
      show ?thesis
      proof (cases "Token.Completed tok")
        case True
        with f fresh_complete [OF t(1,2) lt f(1) _ f(2)] t show ?thesis
          by (auto simp: scanOutcome_def)
      next
        case False
        with f word(2) t show ?thesis
          by (auto simp: scanOutcome_def tokenizerInv_def)
      qed
    next
      case num
      from parseNumber_facts [OF num(2) refl lt] num(1)
      have f: "buffer t' = buffer t" "position t < position t'" "position t' \<le> length (buffer t)"
        "TokenType tok = Number"
        "Token.Completed tok \<longrightarrow> lastToken t' = lastToken t"
        "\<not> Token.Completed tok \<longrightarrow> lastToken t' = Some tok"
        by (auto simp: ch_def)
      show ?thesis
      proof (cases "Token.Completed tok")
        case True
        with f fresh_complete [OF t(1,2) lt f(1,2,3)] t show ?thesis
          by (auto simp: scanOutcome_def)
      next
        case False
        with f t show ?thesis
          by (auto simp: scanOutcome_def tokenizerInv_def)
      qed
    qed
  qed
qed

lemma resumed_outcome:
  assumes inv: "tokenizerInv t" and pe: "pending t"
    and f: "buffer t1 = buffer t" "lastToken t1 = lastToken t" "position t \<le> position t1"
      "position t1 \<le> length (buffer t)"
    and ty: "\<not> Token.Completed tok \<longrightarrow> TokenType tok \<in> {String, ObjectKey, Number, Bool, Null}
         \<and> (TokenType tok \<in> {String, ObjectKey} \<longrightarrow>
              TokenStart tok < position t \<and> buffer t ! TokenStart tok = CHR 0x22)"
    and t': "t' = (if Token.Completed tok then t1\<lparr>lastToken := None\<rparr> else t1\<lparr>lastToken := Some tok\<rparr>)"
  shows "buffer t' = buffer t \<and> tokenizerInv t' \<and> scanOutcome t tok t'"
proof (cases "Token.Completed tok")
  case True
  with f t' pe show ?thesis
    by (auto simp: tokenizerInv_def scanOutcome_def remaining_def pending_def)
next
  case False
  with f t' ty show ?thesis
    by (auto simp: tokenizerInv_def scanOutcome_def)
qed

lemma NextToken_facts:
  assumes inv: "tokenizerInv t" and nt: "NextToken t = (tok, t')"
  shows "buffer t' = buffer t \<and> tokenizerInv t' \<and> scanOutcome t tok t'"
proof (cases "pending t")
  case False
  with nt have "scanToken t = (tok, t')" by (simp add: NextToken_def)
  from scanToken_facts [OF False inv this] show ?thesis .
next
  case True
  then obtain lt where lt: "lastToken t = Some lt" "\<not> Token.Completed lt"
    by (auto simp: pending_def split: option.splits)
  with inv have pos: "position t \<le> length (buffer t)"
    and kinds: "TokenType lt \<in> {String, ObjectKey, Number, Bool, Null}"
    and quote: "TokenType lt \<in> {String, ObjectKey} \<longrightarrow>
                  TokenStart lt < position t \<and> buffer t ! TokenStart lt = CHR 0x22"
    by (auto simp: tokenizerInv_def)
  obtain tk t1 where c: "continueToken t = (tk, t1)" by (cases "continueToken t")
  with nt True have tk: "tk = tok"
    and t': "t' = (if Token.Completed tok then t1\<lparr>lastToken := None\<rparr> else t1\<lparr>lastToken := Some tok\<rparr>)"
    by (auto simp: NextToken_def split: if_splits)
  from kinds consider (str) "TokenType lt \<in> {String, ObjectKey}" | (num) "TokenType lt = Number"
    | (bool) "TokenType lt = Bool" | (null) "TokenType lt = Null"
    by auto
  then show ?thesis
  proof cases
    case str
    with c lt tk have "continueString t lt = (tok, t1)"
      by (auto simp: continueToken_def)
    from continueString_facts [OF this pos] str quote
    show ?thesis by (intro resumed_outcome [OF inv True _ _ _ _ _ t']) auto
  next
    case num
    with c lt tk have "continueNumber t lt = (tok, t1)"
      by (auto simp: continueToken_def)
    from continueNumber_facts [OF this pos]
    show ?thesis by (intro resumed_outcome [OF inv True _ _ _ _ _ t']) auto
  next
    case bool
    with c lt tk have "continueBool t lt = (tok, t1)"
      by (auto simp: continueToken_def)
    then obtain ex where "continueWord ex Bool t lt = (tok, t1)"
      by (auto simp: continueBool_def)
    from continueWord_facts [OF this pos]
    show ?thesis by (intro resumed_outcome [OF inv True _ _ _ _ _ t']) auto
  next
    case null
    with c lt tk have "continueWord nullBytes Null t lt = (tok, t1)"
      by (auto simp: continueToken_def continueNull_def)
    from continueWord_facts [OF this pos]
    show ?thesis by (intro resumed_outcome [OF inv True _ _ _ _ _ t']) auto
  qed
qed

lemma tokenizerAppend_inv: "tokenizerInv t \<Longrightarrow> tokenizerInv (tokenizerAppend t content)"
  by (auto simp: tokenizerInv_def tokenizerAppend_def nth_append split: option.splits)

lemma tokenizerInv_New: "tokenizerInv NewStreamJSONTokenizer"
  by (simp add: tokenizerInv_def NewStreamJSONTokenizer_def)

section \<open>Invariants of the parser\<close>

lemma attachChild_Node: "attachChild a f h = (f', h') \<Longrightarrow> Node f' = Node f"
  by (auto simp: attachChild_def Let_def split: if_splits)

lemma valueSlotFilled_Node [simp]: "Node (valueSlotFilled h f) = Node f"
  by (simp add: valueSlotFilled_def)

lemma list_all_less_mono: "list_all (\<lambda>f. Node f < (n::nat)) fs \<Longrightarrow> n \<le> m \<Longrightarrow> list_all (\<lambda>f. Node f < m) fs"
  by (induction fs) auto

lemma handleStart_keeps:
  assumes "framesFresh p"
  shows "framesFresh (handleObjectStart p) \<and> tokenizer (handleObjectStart p) = tokenizer p
       \<and> started (handleObjectStart p) = started p"
    and "framesFresh (handleArrayStart p) \<and> tokenizer (handleArrayStart p) = tokenizer p
       \<and> started (handleArrayStart p) = started p"
  using assms list_all_less_mono [of "nextAddr p" _ "Suc (nextAddr p)"]
  by (auto simp: framesFresh_def handleObjectStart_def handleArrayStart_def Let_def newStackFrame_def
      split: list.splits prod.splits dest!: attachChild_Node)

lemma handleEnd_keeps:
  assumes "framesFresh p"
  shows "framesFresh (handleObjectEnd p) \<and> tokenizer (handleObjectEnd p) = tokenizer p
       \<and> started (handleObjectEnd p) = started p"
    and "framesFresh (handleArrayEnd p) \<and> tokenizer (handleArrayEnd p) = tokenizer p
       \<and> started (handleArrayEnd p) = started p"
  using assms
  by (auto simp: framesFresh_def handleObjectEnd_def handleArrayEnd_def Let_def split: list.splits)

lemma handleOther_keeps:
  assumes "framesFresh p"
  shows "framesFresh (handleObjectKey tok p) \<and> tokenizer (handleObjectKey tok p) = tokenizer p
       \<and> started (handleObjectKey tok p) = started p"
    and "framesFresh (handleColon p) \<and> tokenizer (handleColon p) = tokenizer p
       \<and> started (handleColon p) = started p"
    and "framesFresh (handleComma p) \<and> tokenizer (handleComma p) = tokenizer p
       \<and> started (handleComma p) = started p"
  using assms
  by (auto simp: framesFresh_def handleObjectKey_def handleColon_def handleComma_def split: list.splits)

lemma handleValue_keeps:
  assumes "framesFresh p"
  shows "framesFresh (handleValue pf tok p) \<and> tokenizer (handleValue pf tok p) = tokenizer p
       \<and> started (handleValue pf tok p) = started p"
  using assms list_all_less_mono [of "nextAddr p" _ "Suc (nextAddr p)"]
  by (auto simp: framesFresh_def handleValue_def Let_def split: list.splits)

lemma processCompleteToken_keeps:
  assumes "framesFresh p"
  shows "framesFresh (processCompleteToken pf tok p) \<and> tokenizer (processCompleteToken pf tok p) = tokenizer p
       \<and> started (processCompleteToken pf tok p) = started p"
  using assms handleStart_keeps [OF assms] handleEnd_keeps [OF assms] handleOther_keeps [OF assms]
    handleValue_keeps [OF assms]
  by (cases "TokenType tok") (simp_all add: processCompleteToken_def)

lemma processIncompleteToken_keeps:
  assumes "framesFresh p"
  shows "framesFresh (processIncompleteToken tok p) \<and> tokenizer (processIncompleteToken tok p) = tokenizer p
       \<and> started (processIncompleteToken tok p) = started p"
  using assms list_all_less_mono [of "nextAddr p" _ "Suc (nextAddr p)"]
  by (auto simp: framesFresh_def processIncompleteToken_def Let_def split: list.splits)

lemma startRoot_keeps:
  assumes "framesFresh p"
  shows "framesFresh (startRoot ty p) \<and> tokenizer (startRoot ty p) = tokenizer p \<and> started (startRoot ty p)"
  using assms list_all_less_mono [of "nextAddr p" _ "Suc (nextAddr p)"]
  by (auto simp: framesFresh_def startRoot_def Let_def newStackFrame_def)

lemma parserInv_alt:
  "parserInv p \<longleftrightarrow> tokenizerInv (tokenizer p) \<and> framesFresh p \<and> (started p \<or> (stack p = [] \<and> root p = None))"
  by (simp add: parserInv_def framesFresh_def)

lemma drainStep_inv:
  assumes inv: "parserInv p" and st: "drainStep pf p = (b, p')"
  shows "parserInv p'"
proof -
  obtain tok t' where nt: "NextToken (tokenizer p) = (tok, t')" by (cases "NextToken (tokenizer p)")
  from inv have ti: "tokenizerInv (tokenizer p)" by (simp add: parserInv_def)
  from NextToken_facts [OF ti nt] have t': "tokenizerInv t'" by simp
  define p1 where "p1 = p\<lparr>tokenizer := t'\<rparr>"
  from inv t' have p1: "parserInv p1" "framesFresh p1" "tokenizer p1 = t'"
    by (auto simp: parserInv_alt p1_def framesFresh_def)
  from st nt have "p' = p1 \<or> p' = startRoot ObjectNode p1 \<or> p' = startRoot ArrayNode p1
      \<or> (started p1 \<and> p' = processCompleteToken pf tok p1)
      \<or> (started p1 \<and> p' = processIncompleteToken tok p1)"
    by (auto simp: drainStep_def Let_def p1_def split: if_splits)
  with p1 startRoot_keeps [OF p1(2)] processCompleteToken_keeps [OF p1(2), of pf tok]
    processIncompleteToken_keeps [OF p1(2), of tok] t'
  show ?thesis by (auto simp: parserInv_alt)
qed

lemma processTokens_inv:
  "parserInv p \<Longrightarrow> processTokens pf n p = Some p' \<Longrightarrow> parserInv p'"
proof (induction n arbitrary: p)
  case 0
  then show ?case by simp
next
  case (Suc n)
  obtain b q where st: "drainStep pf p = (b, q)" by (cases "drainStep pf p")
  from drainStep_inv [OF Suc.prems(1) st] have q: "parserInv q" .
  show ?case
  proof (cases b)
    case True
    with st Suc.prems(2) have "processTokens pf n q = Some p'" by simp
    from Suc.IH [OF q this] show ?thesis .
  next
    case False
    with st Suc.prems(2) q show ?thesis by simp
  qed
qed

lemma parserInv_New: "parserInv NewStreamJSONParser"
  by (simp add: parserInv_def NewStreamJSONParser_def tokenizerInv_New)

lemma Append_inv: "parserInv p \<Longrightarrow> Append pf n p content = Some p' \<Longrightarrow> parserInv p'"
  unfolding Append_def
  by (erule processTokens_inv [rotated]) (auto simp: parserInv_def tokenizerAppend_inv)

lemma reachable_inv: "reachable pf p \<Longrightarrow> parserInv p"
  by (induction rule: reachable.induct) (auto simp: parserInv_New intro: Append_inv)

lemma drainStep_completed:
  assumes "started p" "stack p = []" "tokenizerInv (tokenizer p)" "drainStep pf p = (b, p')"
  shows "\<exists>t'. p' = p\<lparr>tokenizer := t'\<rparr> \<and> tokenizerInv t' \<and> buffer t' = buffer (tokenizer p)
           \<and> (b \<longrightarrow> remaining t' < remaining (tokenizer p))"
proof -
  obtain tok t' where nt: "NextToken (tokenizer p) = (tok, t')" by (cases "NextToken (tokenizer p)")
  from NextToken_facts [OF assms(3) nt]
  have f: "buffer t' = buffer (tokenizer p)" "tokenizerInv t'" "scanOutcome (tokenizer p) tok t'" by auto
  from assms(1,2,4) nt have p': "p' = p\<lparr>tokenizer := t'\<rparr>"
    by (auto simp: drainStep_def Let_def processCompleteToken_def processIncompleteToken_def
        split: if_splits)
  from assms(1,2,4) nt have "b \<longrightarrow> TokenType tok \<noteq> EOF \<and> (TokenType tok = Invalid \<or> Token.Completed tok)"
    by (auto simp: drainStep_def Let_def split: if_splits)
  with f(3) have "b \<longrightarrow> remaining t' < remaining (tokenizer p)"
    by (auto simp: scanOutcome_def)
  with p' f show ?thesis by blast
qed

lemma processTokens_completed:
  "started p \<Longrightarrow> stack p = [] \<Longrightarrow> tokenizerInv (tokenizer p) \<Longrightarrow> remaining (tokenizer p) < n \<Longrightarrow>
     \<exists>t'. processTokens pf n p = Some (p\<lparr>tokenizer := t'\<rparr>)"
proof (induction n arbitrary: p)
  case 0
  then show ?case by simp
next
  case (Suc n)
  obtain b q where st: "drainStep pf p = (b, q)" by (cases "drainStep pf p")
  from drainStep_completed [OF Suc.prems(1,2,3) st] obtain t' where
    q: "q = p\<lparr>tokenizer := t'\<rparr>" "tokenizerInv t'" "b \<longrightarrow> remaining t' < remaining (tokenizer p)"
    by blast
  show ?case
  proof (cases b)
    case False
    with st q show ?thesis by auto
  next
    case True
    with q Suc.prems have "remaining (tokenizer q) < n" "started q" "stack q = []" "tokenizerInv (tokenizer q)"
      by auto
    from Suc.IH [OF this(2,3,4,1)] obtain t'' where "processTokens pf n q = Some (q\<lparr>tokenizer := t''\<rparr>)"
      by blast
    with st True q show ?thesis by auto
  qed
qed

lemma drainStep_completed_shape:
  assumes "started p" "stack p = []" "drainStep pf p = (b, p')"
  shows "\<exists>t'. p' = p\<lparr>tokenizer := t'\<rparr>"
  using assms
  by (auto simp: drainStep_def Let_def processCompleteToken_def processIncompleteToken_def
      split: if_splits prod.splits)

lemma processTokens_completed_shape:
  "started p \<Longrightarrow> stack p = [] \<Longrightarrow> processTokens pf n p = Some p' \<Longrightarrow> \<exists>t'. p' = p\<lparr>tokenizer := t'\<rparr>"
proof (induction n arbitrary: p)
  case 0
  then show ?case by simp
next
  case (Suc n)
  obtain b q where st: "drainStep pf p = (b, q)" by (cases "drainStep pf p")
  from drainStep_completed_shape [OF Suc.prems(1,2) st] obtain t' where q: "q = p\<lparr>tokenizer := t'\<rparr>"
    by blast
  show ?case
  proof (cases b)
    case False
    with st q Suc.prems show ?thesis by auto
  next
    case True
    with st Suc.prems have "processTokens pf n q = Some p'" by simp
    from Suc.IH [OF _ _ this] q Suc.prems(1,2) obtain t'' where "p' = q\<lparr>tokenizer := t''\<rparr>" by auto
    with q show ?thesis by auto
  qed
qed


section \<open>Numbers\<close>


lemma parseWord_type: "parseWord e ty t s = (token, t') \<Longrightarrow> TokenType token = ty \<or> TokenType token = Invalid"
  by (auto simp: parseWord_def Let_def mkToken_def split: prod.splits bool.splits if_splits)

lemma continueWord_type: "continueWord e ty t lt = (token, t') \<Longrightarrow> TokenType token = ty \<or> TokenType token = Invalid"
  by (auto simp: continueWord_def Let_def mkToken_def split: prod.splits bool.splits if_splits)

lemma parseString_type: "parseString t s = (token, t') \<Longrightarrow> TokenType token = String \<or> TokenType token = ObjectKey"
  by (auto simp: parseString_def Let_def mkToken_def split: prod.splits if_splits)

lemma continueString_type: "continueString t lt = (token, t') \<Longrightarrow> TokenType token = TokenType lt"
  by (auto simp: continueString_def Let_def mkToken_def split: prod.splits)


lemma buildString_slice: "buildString buf s e = take (e - s) (drop s buf)"
  by (simp add: buildString_def)

lemma isNumberChar_minus: "isNumberChar CHR ''-''"
  by (simp add: isNumberChar_def)

lemma advance_numberRun: "numberRun buf pos (advance isNumberChar buf pos)"
  using advance_ge [of pos isNumberChar buf] advance_stops [of isNumberChar buf pos]
    advance_le [of pos buf isNumberChar]
  by (auto simp: numberRun_def intro: advance_run)

lemma parseNumber_run:
  assumes "parseNumber t s = (token, t')" and "position t = s" and "s < length (buffer t)"
    and "buffer t ! s = CHR ''-'' \<or> isNumberChar (buffer t ! s)"
  shows "numberRun (buffer t) s (TokenEnd token) \<and> s < TokenEnd token \<and> TokenStart token = s
       \<and> Content token = take (TokenEnd token - s) (drop s (buffer t))
       \<and> buffer t' = buffer t \<and> position t' = TokenEnd token
       \<and> (Token.Completed token \<longleftrightarrow> TokenEnd token < length (buffer t))
       \<and> (Token.Completed token \<longrightarrow> lastToken t' = lastToken t)
       \<and> (\<not> Token.Completed token \<longrightarrow> lastToken t' = Some token)"
proof -
  define p0 where "p0 = (if position t < length (buffer t) \<and> buffer t ! position t = CHR ''-''
                then position t + 1 else position t)"
  define e where "e = advance isNumberChar (buffer t) p0"
  have run0: "numberRun (buffer t) p0 e" unfolding e_def by (rule advance_numberRun)
  have se: "s < e"
    using parseNumber_facts [OF assms] assms(1)
    by (auto simp: parseNumber_def Let_def mkToken_def e_def p0_def split: if_splits)
  have "p0 = s \<or> (p0 = s + 1 \<and> buffer t ! s = CHR ''-'')" using assms by (auto simp: p0_def)
  then have run: "numberRun (buffer t) s e"
  proof
    assume "p0 = s" with run0 show ?thesis by simp
  next
    assume a: "p0 = s + 1 \<and> buffer t ! s = CHR ''-''"
    have "isNumberChar (buffer t ! i)" if "s \<le> i" "i < e" for i
    proof (cases "i = s")
      case True with a show ?thesis by (simp add: isNumberChar_minus)
    next
      case False
      with that a have "p0 \<le> i" by simp
      with run0 that show ?thesis by (simp add: numberRun_def)
    qed
    with run0 a assms(3) se show ?thesis by (auto simp: numberRun_def)
  qed
  from run have "e < length (buffer t) \<longrightarrow> \<not> isNumberChar (buffer t ! e)" by (simp add: numberRun_def)
  with assms(1) run se show ?thesis
    by (auto simp: parseNumber_def Let_def mkToken_def e_def p0_def buildString_slice split: if_splits)
qed

lemma continueNumber_run:
  assumes "continueNumber t lt = (token, t1)"
  shows "numberRun (buffer t) (position t) (TokenEnd token) \<and> TokenStart token = TokenStart lt
       \<and> Content token = take (TokenEnd token - TokenStart lt) (drop (TokenStart lt) (buffer t))
       \<and> buffer t1 = buffer t \<and> position t1 = TokenEnd token \<and> lastToken t1 = lastToken t
       \<and> (Token.Completed token \<longleftrightarrow> TokenEnd token < length (buffer t))"
proof -
  have run: "numberRun (buffer t) (position t) (advance isNumberChar (buffer t) (position t))"
    by (rule advance_numberRun)
  then have "advance isNumberChar (buffer t) (position t) < length (buffer t) \<longrightarrow>
      \<not> isNumberChar (buffer t ! advance isNumberChar (buffer t) (position t))"
    by (simp add: numberRun_def)
  with assms run show ?thesis
    by (auto simp: continueNumber_def Let_def mkToken_def buildString_slice)
qed

lemma Number_first_byte:
  assumes "scanToken t = (token, t')" "TokenType token = Number"
  shows "(buffer (skipWhitespace t) ! position (skipWhitespace t) = CHR ''-''
          \<or> isNumberChar (buffer (skipWhitespace t) ! position (skipWhitespace t)))
       \<and> parseNumber (skipWhitespace t) (position (skipWhitespace t)) = (token, t')"
  using assms
  by (auto simp: scanToken_def Let_def mkToken_def parseBool_def parseNull_def isNumberChar_digit
      split: if_splits dest: parseWord_type parseString_type)

text \<open>
  Claim C6. Whenever \<open>NextToken\<close> returns a Number token, fresh or resumed, the token
  starts where the number started (at the first byte after the whitespace, or where the
  pending token started), it ends where the run of number characters (digits, \<open>.\<close>,
  \<open>e\<close>, \<open>E\<close>, \<open>+\<close>, \<open>-\<close>) that the scan went through ends, its text is the
  buffer between the two, and the cursor stands at its end. It is complete exactly when
  the buffer holds a byte right after it, which is then not a number character; a token
  that ends with the buffer is incomplete and is kept as the pending token.
\<close>

theorem number_complete_iff_terminator_seen:
  assumes "NextToken t = (token, t')" and "TokenType token = Number"
  shows "buffer t' = buffer t \<and> position t' = TokenEnd token
    \<and> TokenStart token = (if pending t then TokenStart (the (lastToken t)) else position (skipWhitespace t))
    \<and> Content token = take (TokenEnd token - TokenStart token) (drop (TokenStart token) (buffer t))
    \<and> numberRun (buffer t) (if pending t then position t else position (skipWhitespace t)) (TokenEnd token)
    \<and> (\<not> pending t \<longrightarrow> position (skipWhitespace t) < TokenEnd token)
    \<and> (Token.Completed token \<longleftrightarrow>
         TokenEnd token < length (buffer t) \<and> \<not> isNumberChar (buffer t ! TokenEnd token))
    \<and> (Token.Completed token \<longleftrightarrow> TokenEnd token < length (buffer t))
    \<and> (TokenEnd token < length (buffer t) \<longrightarrow> \<not> isNumberChar (buffer t ! TokenEnd token))
    \<and> (TokenEnd token = length (buffer t) \<longrightarrow> \<not> Token.Completed token)
    \<and> (Token.Completed token \<longrightarrow> \<not> pending t')
    \<and> (\<not> Token.Completed token \<longrightarrow> lastToken t' = Some token)"
proof (cases "pending t")
  case True
  then obtain lt where lt: "lastToken t = Some lt" by (auto simp: pending_def split: option.splits)
  obtain tk t1 where c: "continueToken t = (tk, t1)" by (cases "continueToken t")
  with assms True have tk: "tk = token" and t': "t' = t1\<lparr>lastToken := (if Token.Completed tk then None else Some tk)\<rparr>"
    by (auto simp: NextToken_def split: if_splits)
  have cn': "continueNumber t lt = (token, t1)"
    using c lt tk assms(2)
    by (auto simp: continueToken_def continueBool_def continueNull_def
        split: TokenType.splits dest: continueWord_type continueString_type)
  from continueNumber_run [OF cn'] t' tk True lt show ?thesis
    by (auto simp: numberRun_def pending_def)
next
  case False
  with assms have sc: "scanToken t = (token, t')" by (simp add: NextToken_def)
  define u where "u = skipWhitespace t"
  have u: "buffer u = buffer t" "lastToken u = lastToken t" by (simp_all add: u_def skipWhitespace_def)
  have lt: "position u < length (buffer u)"
  proof (rule ccontr)
    assume "\<not> position u < length (buffer u)"
    with sc have "token = mkToken (position u) (position u) EOF [] True"
      by (auto simp: scanToken_def Let_def u_def)
    with assms(2) show False by (simp add: mkToken_def)
  qed
  define ch where "ch = buffer u ! position u"
  from Number_first_byte [OF sc assms(2)]
  have num: "ch = CHR ''-'' \<or> isNumberChar ch" "parseNumber u (position u) = (token, t')"
    by (auto simp: u_def ch_def)
  show ?thesis
  proof -
    from parseNumber_run [OF num(2) refl lt] num(1) u
    have f: "numberRun (buffer t) (position u) (TokenEnd token)" "position u < TokenEnd token"
      "TokenStart token = position u"
      "Content token = take (TokenEnd token - position u) (drop (position u) (buffer t))"
      "buffer t' = buffer t" "position t' = TokenEnd token"
      "Token.Completed token \<longleftrightarrow> TokenEnd token < length (buffer t)"
      "Token.Completed token \<longrightarrow> lastToken t' = lastToken t"
      "\<not> Token.Completed token \<longrightarrow> lastToken t' = Some token"
      by (auto simp: ch_def)
    from f(1) have stop: "TokenEnd token < length (buffer t) \<longrightarrow> \<not> isNumberChar (buffer t ! TokenEnd token)"
      by (simp add: numberRun_def)
    from f(7,8) False u(2) have "Token.Completed token \<longrightarrow> \<not> pending t'"
      by (auto simp: pending_def)
    with f stop False show ?thesis unfolding u_def by auto
  qed
qed

lemma number_runs:
  \<open>TokenType (fst (NextToken (tokenizerAppend NewStreamJSONTokenizer ''42,''))) = Number
   \<and> buffer (tokenizerAppend NewStreamJSONTokenizer ''42,'') = ''42,''
   \<and> \<not> pending (tokenizerAppend NewStreamJSONTokenizer ''42,'')
   \<and> position (skipWhitespace (tokenizerAppend NewStreamJSONTokenizer ''42,'')) = 0
   \<and> TokenEnd (fst (NextToken (tokenizerAppend NewStreamJSONTokenizer ''42,''))) = 2
   \<and> TokenType (fst (NextToken (tokenizerAppend NewStreamJSONTokenizer ''12''))) = Number
   \<and> buffer (tokenizerAppend NewStreamJSONTokenizer ''12'') = ''12''
   \<and> TokenEnd (fst (NextToken (tokenizerAppend NewStreamJSONTokenizer ''12''))) = 2
   \<and> TokenType (fst (NextToken (tokenizerAppend (snd (NextToken (tokenizerAppend NewStreamJSONTokenizer ''12''))) ''3,''))) = Number
   \<and> buffer (tokenizerAppend (snd (NextToken (tokenizerAppend NewStreamJSONTokenizer ''12''))) ''3,'') = ''123,''
   \<and> pending (tokenizerAppend (snd (NextToken (tokenizerAppend NewStreamJSONTokenizer ''12''))) ''3,'')
   \<and> position (tokenizerAppend (snd (NextToken (tokenizerAppend NewStreamJSONTokenizer ''12''))) ''3,'') = 2
   \<and> TokenStart (the (lastToken (tokenizerAppend (snd (NextToken (tokenizerAppend NewStreamJSONTokenizer ''12''))) ''3,''))) = 0
   \<and> TokenEnd (fst (NextToken (tokenizerAppend (snd (NextToken (tokenizerAppend NewStreamJSONTokenizer ''12''))) ''3,''))) = 3\<close>
  by code_simp

theorem number_complete_witness:
  \<open>TokenType (fst (NextToken (tokenizerAppend NewStreamJSONTokenizer ''42,''))) = Number
   \<and> Token.Completed (fst (NextToken (tokenizerAppend NewStreamJSONTokenizer ''42,'')))
   \<and> TokenStart (fst (NextToken (tokenizerAppend NewStreamJSONTokenizer ''42,''))) = 0
   \<and> TokenEnd (fst (NextToken (tokenizerAppend NewStreamJSONTokenizer ''42,''))) = 2
   \<and> Content (fst (NextToken (tokenizerAppend NewStreamJSONTokenizer ''42,''))) = ''42''
   \<and> position (snd (NextToken (tokenizerAppend NewStreamJSONTokenizer ''42,''))) = 2
   \<and> TokenType (fst (NextToken (tokenizerAppend NewStreamJSONTokenizer ''12''))) = Number
   \<and> \<not> Token.Completed (fst (NextToken (tokenizerAppend NewStreamJSONTokenizer ''12'')))
   \<and> TokenEnd (fst (NextToken (tokenizerAppend NewStreamJSONTokenizer ''12'')))
       = length (buffer (tokenizerAppend NewStreamJSONTokenizer ''12''))
   \<and> pending (tokenizerAppend (snd (NextToken (tokenizerAppend NewStreamJSONTokenizer ''12''))) ''3,'')
   \<and> TokenType (fst (NextToken (tokenizerAppend (snd (NextToken (tokenizerAppend NewStreamJSONTokenizer ''12''))) ''3,''))) = Number
   \<and> Token.Completed (fst (NextToken (tokenizerAppend (snd (NextToken (tokenizerAppend NewStreamJSONTokenizer ''12''))) ''3,'')))
   \<and> TokenStart (fst (NextToken (tokenizerAppend (snd (NextToken (tokenizerAppend NewStreamJSONTokenizer ''12''))) ''3,''))) = 0
   \<and> TokenEnd (fst (NextToken (tokenizerAppend (snd (NextToken (tokenizerAppend NewStreamJSONTokenizer ''12''))) ''3,''))) = 3
   \<and> Content (fst (NextToken (tokenizerAppend (snd (NextToken (tokenizerAppend NewStreamJSONTokenizer ''12''))) ''3,''))) = ''123''
   \<and> \<not> pending (snd (NextToken (tokenizerAppend (snd (NextToken (tokenizerAppend NewStreamJSONTokenizer ''12''))) ''3,'')))\<close>
proof -
  define t42 where "t42 = tokenizerAppend NewStreamJSONTokenizer ''42,''"
  define t12 where "t12 = tokenizerAppend NewStreamJSONTokenizer ''12''"
  define t123 where "t123 = tokenizerAppend (snd (NextToken (tokenizerAppend NewStreamJSONTokenizer ''12''))) ''3,''"
  from number_runs have
    a: "TokenType (fst (NextToken t42)) = Number" "buffer t42 = ''42,''" "\<not> pending t42"
      "position (skipWhitespace t42) = 0" "TokenEnd (fst (NextToken t42)) = 2"
    and b: "TokenType (fst (NextToken t12)) = Number" "buffer t12 = ''12''" "TokenEnd (fst (NextToken t12)) = 2"
    and c: "TokenType (fst (NextToken t123)) = Number" "buffer t123 = ''123,''" "pending t123"
      "position t123 = 2" "TokenStart (the (lastToken t123)) = 0" "TokenEnd (fst (NextToken t123)) = 3"
    by (simp_all add: t42_def t12_def t123_def)
  from number_complete_iff_terminator_seen [OF prod.collapse [symmetric] a(1)] a
  have 1: "Token.Completed (fst (NextToken t42))" "TokenStart (fst (NextToken t42)) = 0"
    "Content (fst (NextToken t42)) = ''42''" "position (snd (NextToken t42)) = 2"
    by (simp_all add: isNumberChar_def)
  from number_complete_iff_terminator_seen [OF prod.collapse [symmetric] b(1)] b
  have 2: "\<not> Token.Completed (fst (NextToken t12))" by (simp add: isNumberChar_def)
  from number_complete_iff_terminator_seen [OF prod.collapse [symmetric] c(1)] c
  have 3: "Token.Completed (fst (NextToken t123))" "TokenStart (fst (NextToken t123)) = 0"
    "Content (fst (NextToken t123)) = ''123''" "\<not> pending (snd (NextToken t123))"
    by (simp_all add: isNumberChar_def)
  from a b c 1 2 3 show ?thesis unfolding t42_def t12_def t123_def by simp
qed


lemma numberFlags_plain:
  "numberFlags content = (False, False) \<longleftrightarrow>
     CHR ''.'' \<notin> set content \<and> CHR ''e'' \<notin> set content \<and> CHR ''E'' \<notin> set content"
  by (induction content) auto

lemma digitVal_nonneg: "isDigit c \<Longrightarrow> 0 \<le> digitVal c"
  by (simp add: isDigit_def digitVal_def less_eq_char_def)

lemma foldl_digits_nonneg:
  "list_all isDigit ds \<Longrightarrow> 0 \<le> n \<Longrightarrow> 0 \<le> foldl (\<lambda>n c. n * 10 + digitVal c) n ds"
proof (induction ds arbitrary: n)
  case Nil
  then show ?case by simp
next
  case (Cons d ds)
  then have "0 \<le> n * 10 + digitVal d" using digitVal_nonneg [of d] by simp
  with Cons show ?case by simp
qed

lemma decimalValue_nonneg: "list_all isDigit ds \<Longrightarrow> 0 \<le> decimalValue ds"
  by (simp add: decimalValue_def foldl_digits_nonneg)

lemma ParseInt_range: "ParseInt s = Some v \<Longrightarrow> - (2 ^ 63) \<le> v \<and> v < 2 ^ 63"
proof -
  assume a: "ParseInt s = Some v"
  then obtain c cs where s: "s = c # cs" by (cases s) (auto simp: ParseInt_def)
  define ds where "ds = (if c = CHR ''+'' \<or> c = CHR ''-'' then cs else s)"
  from a s have d: "list_all isDigit ds"
    by (auto simp: ParseInt_def Let_def ds_def split: if_splits)
  from a s have "v = (if c = CHR ''-'' then - decimalValue ds else decimalValue ds)"
    and "\<not> (c \<noteq> CHR ''-'' \<and> decimalValue ds \<ge> 2 ^ 63)"
    and "\<not> (c = CHR ''-'' \<and> decimalValue ds > 2 ^ 63)"
    by (auto simp: ParseInt_def Let_def ds_def split: if_splits)
  with decimalValue_nonneg [OF d] show ?thesis by (auto split: if_splits)
qed


text \<open>
  Claim C8. A Number token is decoded in this order: when its text has no \<open>.\<close>, \<open>e\<close> or
  \<open>E\<close>, as a signed 64-bit integer if \<^verbatim>\<open>ParseInt\<close> accepts it; otherwise, or when
  that fails, as a 64-bit float if \<^verbatim>\<open>ParseFloat\<close> (the parameter \<open>pf\<close>) accepts it;
  otherwise as the raw text. An integer result lies in the signed 64-bit range, and the
  result is always one of the three: there is no failure.
\<close>

theorem number_decoding_falls_back:
  assumes "TokenType token = Number"
  shows "parseTokenValue pf token =
           (if CHR ''.'' \<notin> set (Content token) \<and> CHR ''e'' \<notin> set (Content token)
               \<and> CHR ''E'' \<notin> set (Content token)
            then (case ParseInt (Content token) of
                    Some i \<Rightarrow> Int64 i
                  | None \<Rightarrow> (case pf (Content token) of
                               Some x \<Rightarrow> Float64 x | None \<Rightarrow> Str (Content token)))
            else (case pf (Content token) of
                    Some x \<Rightarrow> Float64 x | None \<Rightarrow> Str (Content token)))
         \<and> (\<forall>i. parseTokenValue pf token = Int64 i \<longrightarrow> - (2 ^ 63) \<le> i \<and> i < 2 ^ 63)
         \<and> ((\<exists>i. parseTokenValue pf token = Int64 i) \<or> (\<exists>x. parseTokenValue pf token = Float64 x)
            \<or> parseTokenValue pf token = Str (Content token))"
proof -
  have flags: "(case numberFlags (Content token) of (hasDecimal, hasExp) \<Rightarrow> \<not> hasDecimal \<and> \<not> hasExp)
      \<longleftrightarrow> CHR ''.'' \<notin> set (Content token) \<and> CHR ''e'' \<notin> set (Content token) \<and> CHR ''E'' \<notin> set (Content token)"
    using numberFlags_plain [of "Content token"] by (cases "numberFlags (Content token)") auto
  have eq: "parseTokenValue pf token =
           (if CHR ''.'' \<notin> set (Content token) \<and> CHR ''e'' \<notin> set (Content token)
               \<and> CHR ''E'' \<notin> set (Content token)
            then (case ParseInt (Content token) of
                    Some i \<Rightarrow> Int64 i
                  | None \<Rightarrow> (case pf (Content token) of
                               Some x \<Rightarrow> Float64 x | None \<Rightarrow> Str (Content token)))
            else (case pf (Content token) of
                    Some x \<Rightarrow> Float64 x | None \<Rightarrow> Str (Content token)))"
    using assms flags
    by (cases "numberFlags (Content token)") (auto simp: parseTokenValue_def Let_def split: option.splits)
  show ?thesis
    unfolding eq using ParseInt_range [of "Content token"]
    by (auto split: option.splits if_splits)
qed

theorem number_decoding_witness:
  \<open>TokenType (mkToken 7 9 Number ''30'' True) = Number
   \<and> parseTokenValue (\<lambda>s. None :: unit option) (mkToken 7 9 Number ''30'' True) = Int64 30
   \<and> parseTokenValue (\<lambda>s. None :: unit option) (mkToken 0 20 Number ''99999999999999999999'' True)
       = Str ''99999999999999999999''
   \<and> parseTokenValue (\<lambda>s. if s = ''1e2'' then Some () else None) (mkToken 0 3 Number ''1e2'' True)
       = Float64 ()\<close>
proof -
  have a: "ParseInt ''30'' = Some 30" "ParseInt ''99999999999999999999'' = None"
    by code_simp+
  from number_decoding_falls_back [of "mkToken 7 9 Number ''30'' True" "\<lambda>s. None :: unit option"]
    number_decoding_falls_back [of "mkToken 0 20 Number ''99999999999999999999'' True" "\<lambda>s. None :: unit option"]
    number_decoding_falls_back [of "mkToken 0 3 Number ''1e2'' True" "\<lambda>s. if s = ''1e2'' then Some () else None"]
    a
  show ?thesis by (simp add: mkToken_def)
qed

section \<open>Path misses\<close>

lemma getFromNode_walk:
  "keys \<noteq> [] \<Longrightarrow> getFromNode h node keys =
     (case walk h node keys of None \<Rightarrow> INil | Some n \<Rightarrow> nodeResult h n)"
proof (induction keys arbitrary: node)
  case Nil
  then show ?case by simp
next
  case (Cons key keys)
  show ?case
  proof (cases "keys = []")
    case True
    then show ?thesis by (auto split: NodeType.splits option.splits)
  next
    case False
    with Cons.IH show ?thesis by (auto split: NodeType.splits option.splits simp: Let_def)
  qed
qed

lemma walk_append:
  "walk h node (ks @ ks') = (case walk h node ks of None \<Rightarrow> None | Some n \<Rightarrow> walk h n ks')"
  by (induction ks arbitrary: node) (auto split: NodeType.splits option.splits)

text \<open>
  Claim C7. \<open>Get\<close> is total, and every miss is the \<^verbatim>\<open>nil\<close> result: the empty path,
  any path when there is no root, and a path whose prefix \<open>ks\<close> leads to a node \<open>n\<close>
  where the next segment finds nothing, because \<open>n\<close> is an object without that key,
  or an array and the segment is not an integer that \<^verbatim>\<open>Atoi\<close> reads as an index
  within the array, or a Value node. The index \<^verbatim>\<open>node.Array[index]\<close> is only read
  under the range test, and child pointers are never \<^verbatim>\<open>nil\<close>, so no case of
  \<^verbatim>\<open>getFromNode\<close> can panic.
\<close>

theorem Get_miss_is_not_found:
  "Get p [] = INil
   \<and> (root p = None \<longrightarrow> Get p keys = INil)
   \<and> (root p = Some r \<and> walk (heap p) r ks = Some n
        \<and> (Type (heap p n) = ObjectNode \<and> Children (heap p n) key = None
            \<or> Type (heap p n) = ArrayNode
                \<and> (\<forall>i. Atoi key = Some i \<longrightarrow> i < 0 \<or> int (length (Array (heap p n))) \<le> i)
            \<or> Type (heap p n) = ValueNode)
      \<longrightarrow> Get p (ks @ key # rest) = INil)"
proof (intro conjI impI)
  show "Get p [] = INil" by (simp add: Get_def split: option.splits)
  show "Get p keys = INil" if "root p = None" using that by (simp add: Get_def)
next
  assume a: "root p = Some r \<and> walk (heap p) r ks = Some n
        \<and> (Type (heap p n) = ObjectNode \<and> Children (heap p n) key = None
            \<or> Type (heap p n) = ArrayNode
                \<and> (\<forall>i. Atoi key = Some i \<longrightarrow> i < 0 \<or> int (length (Array (heap p n))) \<le> i)
            \<or> Type (heap p n) = ValueNode)"
  then have "walk (heap p) n (key # rest) = None"
    by (auto split: NodeType.splits option.splits)
  with a have "walk (heap p) r (ks @ key # rest) = None" by (simp add: walk_append)
  with a show "Get p (ks @ key # rest) = INil"
    by (simp add: Get_def getFromNode_walk)
qed

lemma nested_array_run: \<open>(case Append (\<lambda>s. None :: unit option) 20 NewStreamJSONParser ''{"a":[7],"b":"x"}'' of None \<Rightarrow> False
   | Some p \<Rightarrow> IsCompleted p \<and> root p = Some 0 \<and> walk (heap p) 0 [''a''] = Some 1 \<and> Type (heap p 1) = ArrayNode
      \<and> length (Array (heap p 1)) = 1 \<and> Atoi ''5'' = Some 5 \<and> Atoi ''x'' = None
      \<and> walk (heap p) 0 [] = Some 0 \<and> Type (heap p 0) = ObjectNode \<and> Children (heap p 0) ''zz'' = None
      \<and> walk (heap p) 0 [''b''] = Some 3 \<and> Type (heap p 3) = ValueNode
      \<and> Get p [''a'', ''0''] = Int64 7)\<close>
  by code_simp


theorem Get_miss_witness:
  \<open>Get (the (Append (\<lambda>s. None :: unit option) 20 NewStreamJSONParser ''{"a":[7],"b":"x"}'')) [] = INil
   \<and> Get (NewStreamJSONParser :: unit StreamJSONParser) [''a''] = INil
   \<and> Get (the (Append (\<lambda>s. None :: unit option) 20 NewStreamJSONParser ''{"a":[7],"b":"x"}'')) [''zz'', ''k''] = INil
   \<and> Get (the (Append (\<lambda>s. None :: unit option) 20 NewStreamJSONParser ''{"a":[7],"b":"x"}'')) [''a'', ''5''] = INil
   \<and> Get (the (Append (\<lambda>s. None :: unit option) 20 NewStreamJSONParser ''{"a":[7],"b":"x"}'')) [''a'', ''x''] = INil
   \<and> Get (the (Append (\<lambda>s. None :: unit option) 20 NewStreamJSONParser ''{"a":[7],"b":"x"}'')) [''b'', ''0''] = INil
   \<and> Get (the (Append (\<lambda>s. None :: unit option) 20 NewStreamJSONParser ''{"a":[7],"b":"x"}'')) [''a'', ''0''] = Int64 7\<close>
proof -
  define p where \<open>p = the (Append (\<lambda>s. None :: unit option) 20 NewStreamJSONParser ''{"a":[7],"b":"x"}'')\<close>
  from nested_array_run have f: "root p = Some 0" "walk (heap p) 0 [''a''] = Some 1" "Type (heap p 1) = ArrayNode"
    "length (Array (heap p 1)) = 1" "Atoi ''5'' = Some 5" "Atoi ''x'' = None"
    "walk (heap p) 0 [] = Some 0" "Type (heap p 0) = ObjectNode" "Children (heap p 0) ''zz'' = None"
    "walk (heap p) 0 [''b''] = Some 3" "Type (heap p 3) = ValueNode" "Get p [''a'', ''0''] = Int64 7"
    by (auto simp: p_def split: option.splits)
  have "root (NewStreamJSONParser :: unit StreamJSONParser) = None"
    by (simp add: NewStreamJSONParser_def)
  with f
    Get_miss_is_not_found [of p "[''a'']" 0 "[]" 0 "''zz''" "[''k'']"]
    Get_miss_is_not_found [of p "[]" 0 "[''a'']" 1 "''5''" "[]"]
    Get_miss_is_not_found [of p "[]" 0 "[''a'']" 1 "''x''" "[]"]
    Get_miss_is_not_found [of p "[]" 0 "[''b'']" 3 "''0''" "[]"]
    Get_miss_is_not_found [of "NewStreamJSONParser :: unit StreamJSONParser" "[''a'']" 0 "[]" 0 "''zz''" "[''k'']"]
  show ?thesis unfolding p_def [symmetric] by simp
qed

section \<open>Completion\<close>

text \<open>
  Claim C4. For a parser state that a caller can reach and in which \<open>IsCompleted\<close>
  holds, \<open>Append\<close> of any content returns (within a number of iterations bounded by
  the size of the buffer), and whatever it returns is a reachable parser in which
  \<open>IsCompleted\<close> holds again, with the same root and the same nodes, hence the same
  \<open>Get\<close> result on every path. The result being reachable and completed, the same
  holds after every later \<open>Append\<close>.
\<close>

theorem completion_is_final:
  assumes "reachable pf p" and "IsCompleted p"
  shows "(\<exists>p'. Append pf (2 * (length (buffer (tokenizer p)) + length content) + 2) p content = Some p')
       \<and> (\<forall>fuel p'. Append pf fuel p content = Some p' \<longrightarrow>
            reachable pf p' \<and> IsCompleted p' \<and> root p' = root p \<and> heap p' = heap p
            \<and> (\<forall>keys. Get p' keys = Get p keys))"
proof (intro conjI allI impI)
  define p0 where "p0 = p\<lparr>tokenizer := tokenizerAppend (tokenizer p) content\<rparr>"
  from reachable_inv [OF assms(1)] have "tokenizerInv (tokenizer p)" by (simp add: parserInv_def)
  then have inv0: "tokenizerInv (tokenizer p0)" by (simp add: p0_def tokenizerAppend_inv)
  from assms(2) have s0: "started p0" "stack p0 = []" by (auto simp: IsCompleted_def p0_def)
  have "remaining (tokenizer p0) < 2 * (length (buffer (tokenizer p)) + length content) + 2"
    by (auto simp: remaining_def p0_def tokenizerAppend_def)
  from processTokens_completed [OF s0 inv0 this, of pf]
  show "\<exists>p'. Append pf (2 * (length (buffer (tokenizer p)) + length content) + 2) p content = Some p'"
    by (auto simp: Append_def p0_def)
next
  fix fuel p'
  assume a: "Append pf fuel p content = Some p'"
  from assms(1) a show "reachable pf p'" by (rule reachable.append)
  from assms(2) have "started (p\<lparr>tokenizer := tokenizerAppend (tokenizer p) content\<rparr>)"
    "stack (p\<lparr>tokenizer := tokenizerAppend (tokenizer p) content\<rparr>) = []"
    by (auto simp: IsCompleted_def)
  from processTokens_completed_shape [OF this a [unfolded Append_def]]
  obtain t' where p': "p' = p\<lparr>tokenizer := t'\<rparr>" by auto
  with assms(2) show "IsCompleted p'" "root p' = root p" "heap p' = heap p"
    by (auto simp: IsCompleted_def)
  fix keys
  from p' show "Get p' keys = Get p keys" by (simp add: Get_def split: option.splits)
qed

lemma trailing_junk_run: \<open>(case Append (\<lambda>s. None :: unit option) 20 NewStreamJSONParser ''{"a":1}'' of None \<Rightarrow> False
   | Some p \<Rightarrow> IsCompleted p \<and> Get p [''a''] = Int64 1
      \<and> (case Append (\<lambda>s. None) 50 p '' junk {"a":2} "x'' of None \<Rightarrow> False
          | Some p' \<Rightarrow> IsCompleted p' \<and> Get p' [''a''] = Int64 1))\<close>
  by code_simp

theorem completion_witness:
  \<open>IsCompleted (the (Append (\<lambda>s. None :: unit option) 20 NewStreamJSONParser ''{"a":1}''))
   \<and> IsCompleted (the (Append (\<lambda>s. None) 50
        (the (Append (\<lambda>s. None :: unit option) 20 NewStreamJSONParser ''{"a":1}'')) '' junk {"a":2} "x''))
   \<and> Get (the (Append (\<lambda>s. None) 50
        (the (Append (\<lambda>s. None :: unit option) 20 NewStreamJSONParser ''{"a":1}'')) '' junk {"a":2} "x'')) [''a'']
      = Int64 1\<close>
proof -
  define p where \<open>p = the (Append (\<lambda>s. None :: unit option) 20 NewStreamJSONParser ''{"a":1}'')\<close>
  define p' where \<open>p' = the (Append (\<lambda>s. None) 50 p '' junk {"a":2} "x'')\<close>
  from trailing_junk_run have a: \<open>Append (\<lambda>s. None :: unit option) 20 NewStreamJSONParser ''{"a":1}'' = Some p\<close>
    and c: "IsCompleted p" and g: "Get p [''a''] = Int64 1"
    and a': \<open>Append (\<lambda>s. None) 50 p '' junk {"a":2} "x'' = Some p'\<close>
    by (auto simp: p_def p'_def split: option.splits)
  have r: "reachable (\<lambda>s. None) p" using reachable.new a by (rule reachable.append)
  from completion_is_final [OF r c, of \<open>'' junk {"a":2} "x''\<close>] a' c g
  show ?thesis unfolding p'_def [symmetric] p_def [symmetric] by simp
qed

section \<open>Malformed literals\<close>

text \<open>
  Claim C5. A literal that starts with \<open>t\<close>, \<open>f\<close> or \<open>n\<close> and then departs from
  \<open>true\<close>, \<open>false\<close> or \<open>null\<close> should come out as one Invalid token that spans the
  whole run of letters. \<^verbatim>\<open>parseBool\<close> and \<^verbatim>\<open>parseNull\<close> stop one byte after the
  mismatch instead: on the buffer \<open>trap\<close> the first token is Invalid \<open>tra\<close> and the
  second is Invalid \<open>p\<close>. Only the resuming scanners take the whole run: the same four
  bytes arriving as \<open>t\<close> and then \<open>rap\<close> give one Invalid token \<open>trap\<close>. The byte
  after the mismatch is taken whatever it is: on \<open>t}\<close> the Invalid token is \<open>t}\<close>.
\<close>

theorem fresh_literal_mismatch_is_cut_short:
  \<open>fst (NextToken (tokenizerAppend NewStreamJSONTokenizer ''trap'')) = mkToken 0 3 Invalid ''tra'' True
   \<and> fst (NextToken (snd (NextToken (tokenizerAppend NewStreamJSONTokenizer ''trap''))))
       = mkToken 3 4 Invalid ''p'' True
   \<and> fst (NextToken (tokenizerAppend (snd (NextToken (tokenizerAppend NewStreamJSONTokenizer ''t''))) ''rap''))
       = mkToken 0 4 Invalid ''trap'' True
   \<and> fst (NextToken (tokenizerAppend NewStreamJSONTokenizer ''t}'')) = mkToken 0 2 Invalid ''t}'' True\<close>
  by code_simp

section \<open>Containers at the end of a path\<close>

lemma user_object_run:
  \<open>(case Append pf 30 NewStreamJSONParser ''{"user":{"name":"Alice","age":25},"status":"active"}'' of
      None \<Rightarrow> False
    | Some p \<Rightarrow> IsCompleted p \<and> (case Get p [''user''] of NodePtr a \<Rightarrow> a = 1 | _ \<Rightarrow> False)
                 \<and> Type (heap p 1) = ObjectNode)\<close>
  by code_simp

text \<open>
  Claim C1. \<open>Get\<close> on a path that ends at a container should return the container rebuilt
  as a plain mapping or sequence, never a node of the tree. On the input of the
  repository's test \<^verbatim>\<open>TestStreamJSONParserGetObject\<close> the document is complete and
  \<open>Get\<close> on \<open>user\<close> returns the pointer to the object node itself.
\<close>

theorem Get_returns_node_handle:
  \<open>\<exists>p. Append pf 30 NewStreamJSONParser ''{"user":{"name":"Alice","age":25},"status":"active"}'' = Some p
     \<and> IsCompleted p \<and> Get p [''user''] = NodePtr 1 \<and> Type (heap p 1) = ObjectNode\<close>
  using user_object_run [of pf] by (auto split: option.splits iface.splits)

section \<open>Chunk boundaries\<close>

lemma hung_step:
  assumes "hungBeforeStart p"
  shows "\<exists>p'. drainStep pf p = (True, p') \<and> hungBeforeStart p'"
proof -
  from assms obtain lt where "lastToken (tokenizer p) = Some lt" "\<not> Token.Completed lt"
    "TokenType lt = String \<or> TokenType lt = Number"
    "length (buffer (tokenizer p)) \<le> position (tokenizer p)" "\<not> started p"
    by (auto simp: hungBeforeStart_def split: option.splits)
  then show ?thesis
    by (auto simp: drainStep_def NextToken_def pending_def continueToken_def continueString_def
        continueNumber_def advance_done scanString_at_end mkToken_def hungBeforeStart_def Let_def)
qed

lemma hung_forever: "hungBeforeStart p \<Longrightarrow> processTokens pf n p = None"
proof (induction n arbitrary: p)
  case 0
  then show ?case by simp
next
  case (Suc n)
  from hung_step [OF Suc.prems, of pf] obtain p' where "drainStep pf p = (True, p')" "hungBeforeStart p'"
    by blast
  then show ?case using Suc.IH by simp
qed

lemma open_string_first_step:
  \<open>(case drainStep pf (NewStreamJSONParser\<lparr>tokenizer :=
            tokenizerAppend NewStreamJSONTokenizer [CHR 0x22, CHR ''a'', CHR ''b'']\<rparr>)
    of (b, p') \<Rightarrow> b \<and> hungBeforeStart p')\<close>
  by code_simp

lemma whole_string_run:
  \<open>(case Append pf 3 NewStreamJSONParser [CHR 0x22, CHR ''a'', CHR ''b'', CHR ''c'', CHR 0x22] of
      None \<Rightarrow> False | Some p \<Rightarrow> root p = None \<and> \<not> started p)\<close>
  by code_simp

text \<open>
  Claim C2. Feeding a JSON text in chunks should end in the same tree and the same \<open>Get\<close>
  results as feeding it whole. The JSON text \<open>"abc"\<close> fed whole is drained in three
  iterations and leaves a parser without a root. Fed as \<open>"ab\<close> and then \<open>c"\<close>, the
  first \<open>Append\<close> never returns, whatever the number of iterations allowed: before a
  root exists the drain loop goes round again on every token that is neither end of
  input nor Invalid, the unfinished string included, and the tokenizer hands the same
  unfinished string back each time.
\<close>

theorem split_scalar_text_never_returns:
  \<open>(\<forall>fuel. Append pf fuel NewStreamJSONParser [CHR 0x22, CHR ''a'', CHR ''b''] = None)
   \<and> (\<exists>p. Append pf 3 NewStreamJSONParser [CHR 0x22, CHR ''a'', CHR ''b'', CHR ''c'', CHR 0x22] = Some p
         \<and> root p = None)\<close>
proof (intro conjI allI)
  fix fuel
  show "Append pf fuel NewStreamJSONParser [CHR 0x22, CHR ''a'', CHR ''b''] = None"
  proof (cases fuel)
    case 0
    then show ?thesis by (simp add: Append_def)
  next
    case (Suc n)
    from open_string_first_step [of pf] obtain p' where
      "drainStep pf (NewStreamJSONParser\<lparr>tokenizer :=
         tokenizerAppend NewStreamJSONTokenizer [CHR 0x22, CHR ''a'', CHR ''b'']\<rparr>) = (True, p')"
      "hungBeforeStart p'"
      by (auto split: prod.splits)
    then show ?thesis using Suc hung_forever [of p' pf n] by (simp add: Append_def)
  qed
next
  show "\<exists>p. Append pf 3 NewStreamJSONParser [CHR 0x22, CHR ''a'', CHR ''b'', CHR ''c'', CHR 0x22] = Some p
          \<and> root p = None"
    using whole_string_run [of pf] by (auto split: option.splits)
qed

text \<open>
  A second way in which a chunk boundary shows, on a malformed text: \<open>{"a":tXtrue}\<close> fed
  whole ends with \<open>a\<close> bound to \<open>true\<close> (the fresh scanner drops \<open>tX\<close> and then reads
  \<open>true\<close>), while fed as \<open>{"a":t\<close> and \<open>Xtrue}\<close> it ends with \<open>a\<close> unbound (the
  resuming scanner drops the whole run \<open>tXtrue\<close>).
\<close>

lemma split_inside_bad_literal:
  \<open>(case Append pf 20 NewStreamJSONParser ''{"a":tXtrue}'' of
      None \<Rightarrow> False
    | Some p \<Rightarrow> IsCompleted p \<and> (case Get p [''a''] of Boolean b \<Rightarrow> b | _ \<Rightarrow> False))
   \<and> (case Append pf 20 NewStreamJSONParser ''{"a":t'' of
        None \<Rightarrow> False
      | Some p1 \<Rightarrow>
          (case Append pf 20 p1 ''Xtrue}'' of
             None \<Rightarrow> False
           | Some p \<Rightarrow> IsCompleted p \<and> (case Get p [''a''] of INil \<Rightarrow> True | _ \<Rightarrow> False)))\<close>
  by code_simp

section \<open>Before the root exists\<close>

lemma invalid_text_run:
  \<open>(case Append pf 20 NewStreamJSONParser ''invalid text {"valid": true}'' of
      None \<Rightarrow> False
    | Some q \<Rightarrow> IsCompleted q \<and> (case Get q [''valid''] of Boolean b \<Rightarrow> b | _ \<Rightarrow> False))\<close>
  by code_simp

text \<open>
  One run of the body of the drain loop while the parser has not started: a token that
  is neither \<open>{\<close> nor \<open>[\<close> moves only the tokenizer (the loop leaves at the end of
  input and goes round again otherwise, also when the token is unfinished). On \<open>{\<close> or
  \<open>[\<close> the loop allocates the root node, pushes a frame for it that expects a key or a
  value, and sets \<open>started\<close>; in every state that satisfies the parser's invariant the
  stack was empty, so that frame is the first.
\<close>

lemma before_root_step:
  assumes \<open>\<not> started p\<close> and \<open>NextToken (tokenizer p) = (token, t')\<close>
  shows \<open>(TokenType token \<notin> {ObjectStart, ArrayStart} \<longrightarrow>
          snd (drainStep pf p) = p\<lparr>tokenizer := t'\<rparr>)
    \<and> (TokenType token = ObjectStart \<longrightarrow>
          drainStep pf p =
            (True, p\<lparr>tokenizer := t', heap := (heap p)(nextAddr p := NewNode ObjectNode),
                     nextAddr := nextAddr p + 1, root := Some (nextAddr p),
                     stack := newStackFrame\<lparr>Node := nextAddr p, ExpectingKey := True\<rparr> # stack p,
                     started := True\<rparr>))
    \<and> (TokenType token = ArrayStart \<longrightarrow>
          drainStep pf p =
            (True, p\<lparr>tokenizer := t', heap := (heap p)(nextAddr p := NewNode ArrayNode),
                     nextAddr := nextAddr p + 1, root := Some (nextAddr p),
                     stack := newStackFrame\<lparr>Node := nextAddr p, ExpectingValue := True\<rparr> # stack p,
                     started := True\<rparr>))
    \<and> (parserInv p \<longrightarrow> stack p = [] \<and> root p = None)
    \<and> (\<exists>q. Append pf 20 NewStreamJSONParser ''invalid text {"valid": true}'' = Some q
           \<and> IsCompleted q \<and> Get q [''valid''] = Boolean True)\<close>
proof -
  have sc: \<open>\<exists>q. Append pf 20 NewStreamJSONParser ''invalid text {"valid": true}'' = Some q
           \<and> IsCompleted q \<and> Get q [''valid''] = Boolean True\<close>
    using invalid_text_run [of pf] by (auto split: option.splits iface.splits)
  from assms have
    "TokenType token \<notin> {ObjectStart, ArrayStart} \<longrightarrow> snd (drainStep pf p) = p\<lparr>tokenizer := t'\<rparr>"
    by (auto simp: drainStep_def Let_def)
  moreover from assms have "TokenType token = ObjectStart \<longrightarrow>
          drainStep pf p =
            (True, p\<lparr>tokenizer := t', heap := (heap p)(nextAddr p := NewNode ObjectNode),
                     nextAddr := nextAddr p + 1, root := Some (nextAddr p),
                     stack := newStackFrame\<lparr>Node := nextAddr p, ExpectingKey := True\<rparr> # stack p,
                     started := True\<rparr>)"
    by (auto simp: drainStep_def Let_def startRoot_def)
  moreover from assms have "TokenType token = ArrayStart \<longrightarrow>
          drainStep pf p =
            (True, p\<lparr>tokenizer := t', heap := (heap p)(nextAddr p := NewNode ArrayNode),
                     nextAddr := nextAddr p + 1, root := Some (nextAddr p),
                     stack := newStackFrame\<lparr>Node := nextAddr p, ExpectingValue := True\<rparr> # stack p,
                     started := True\<rparr>)"
    by (auto simp: drainStep_def Let_def startRoot_def)
  moreover from assms(1) have "parserInv p \<longrightarrow> stack p = [] \<and> root p = None"
    by (auto simp: parserInv_def)
  ultimately show ?thesis using sc by blast
qed

lemma open_number_first_step:
  \<open>(case drainStep pf (NewStreamJSONParser\<lparr>tokenizer := tokenizerAppend NewStreamJSONTokenizer ''12''\<rparr>)
    of (b, p') \<Rightarrow> b \<and> hungBeforeStart p')\<close>
  by code_simp

lemma whole_number_run:
  \<open>(case Append pf 3 NewStreamJSONParser ''12 '' of
      None \<Rightarrow> False | Some p \<Rightarrow> root p = None \<and> \<not> started p)\<close>
  by code_simp

text \<open>
  Claim C9. Before a root exists every token other than \<open>{\<close> and \<open>[\<close> should be
  dropped without error. A finished token is: on \<open>12\<close> followed by a space the call
  returns after three iterations with no root, and on \<open>invalid text {"valid": true}\<close>
  the parser ends completed with \<open>valid\<close> bound to \<open>true\<close>. An unfinished token is
  not: on the input \<open>12\<close> the call never returns, whatever the number of iterations
  allowed. Before the start the loop goes round again without looking at the token's
  \<open>Completed\<close> flag, and the tokenizer hands the same unfinished number back each time.
\<close>

theorem unfinished_token_before_root_never_returns:
  \<open>(\<forall>fuel. Append pf fuel NewStreamJSONParser ''12'' = None)
   \<and> (\<exists>p. Append pf 3 NewStreamJSONParser ''12 '' = Some p \<and> root p = None \<and> \<not> started p)
   \<and> (\<exists>q. Append pf 20 NewStreamJSONParser ''invalid text {"valid": true}'' = Some q
          \<and> IsCompleted q \<and> Get q [''valid''] = Boolean True)\<close>
proof (intro conjI allI)
  fix fuel
  show "Append pf fuel NewStreamJSONParser ''12'' = None"
  proof (cases fuel)
    case 0
    then show ?thesis by (simp add: Append_def)
  next
    case (Suc n)
    from open_number_first_step [of pf] obtain p' where
      "drainStep pf (NewStreamJSONParser\<lparr>tokenizer := tokenizerAppend NewStreamJSONTokenizer ''12''\<rparr>) = (True, p')"
      "hungBeforeStart p'"
      by (auto split: prod.splits)
    then show ?thesis using Suc hung_forever [of p' pf n] by (simp add: Append_def)
  qed
next
  show "\<exists>p. Append pf 3 NewStreamJSONParser ''12 '' = Some p \<and> root p = None \<and> \<not> started p"
    using whole_number_run [of pf] by (auto split: option.splits)
next
  show \<open>\<exists>q. Append pf 20 NewStreamJSONParser ''invalid text {"valid": true}'' = Some q
          \<and> IsCompleted q \<and> Get q [''valid''] = Boolean True\<close>
    using invalid_text_run [of pf] by (auto split: option.splits iface.splits)
qed


section \<open>Strings after a comma in an array\<close>






section \<open>The shape of the heap\<close>



lemma kids_NewNode [simp]: "kids (NewNode ty) = {}"
  by (simp add: kids_def NewNode_def)




lemma grows_tok [simp]: "grows g k (p\<lparr>tokenizer := t\<rparr>) p' = grows g k p p'"
  by (simp add: grows_def)























section \<open>Partial strings\<close>





















end
